theory Spec2Isabelle
  imports Main
begin

section \<open>Path identifiers\<close>

text \<open>
  The scope tree (\<^verbatim>\<open>edb/ir/scopetree.py\<close>) labels its nodes with \<^verbatim>\<open>PathId\<close> values.
  The \<^verbatim>\<open>pathid\<close> module is not among the sources, so the few operations the scope
  tree calls are modelled from the specification (section 3 and 4.1).
\<close>

datatype step = Step (step_name: string) (step_linkprop: bool)

text \<open>
  Modelled from the spec: the \<^verbatim>\<open>PathId\<close> class of the missing \<^verbatim>\<open>pathid\<close> module.
  A path is an ordered step sequence (the root type first), each step flagged when it is a
  link property, together with a namespace set; \<open>ptr\<close> marks a pointer-only path, the
  kind that \<^verbatim>\<open>iter_prefixes(include_ptr=True)\<close> may yield. Two paths are equal when all
  three agree. The target-type reference takes no part in equality or in any operation used
  here and is left out.
\<close>

record PathId =
  steps :: "step list"
  namespace :: "string set"
  ptr :: bool

text \<open>Modelled from the spec: \<^verbatim>\<open>PathId.strip_namespace\<close> removes the given namespaces
  from the path's namespace set and returns a new value.\<close>

definition strip_namespace :: "PathId \<Rightarrow> string set \<Rightarrow> PathId" where
  "strip_namespace p nss = p\<lparr>namespace := namespace p - nss\<rparr>"

text \<open>Modelled from the spec: \<^verbatim>\<open>PathId.replace_namespace\<close>; \<open>None\<close> clears the
  namespace set.\<close>

definition replace_namespace :: "PathId \<Rightarrow> string set option \<Rightarrow> PathId" where
  "replace_namespace p nso =
     (case nso of None \<Rightarrow> p\<lparr>namespace := {}\<rparr> | Some nss \<Rightarrow> p\<lparr>namespace := nss\<rparr>)"

text \<open>Modelled from the spec: \<^verbatim>\<open>PathId.strip_weak_namespaces\<close>, which the spec
  describes as giving the fully-namespace-stripped path.\<close>

definition strip_weak_namespaces :: "PathId \<Rightarrow> PathId" where
  "strip_weak_namespaces p = p\<lparr>namespace := {}\<rparr>"

definition is_ptr_path :: "PathId \<Rightarrow> bool" where
  "is_ptr_path p = ptr p"

definition is_linkprop_path :: "PathId \<Rightarrow> bool" where
  "is_linkprop_path p = (case steps p of [] \<Rightarrow> False | _ \<Rightarrow> step_linkprop (last (steps p)))"

definition owns_linkprop :: "PathId \<Rightarrow> nat \<Rightarrow> bool" where
  "owns_linkprop p k = (k < length (steps p) \<and> step_linkprop (steps p ! k))"

text \<open>
  Modelled from the spec: \<^verbatim>\<open>PathId.iter_prefixes\<close>. Section 4.1 has it run from the
  full path to the root, the root path last. With \<open>include_ptr\<close> the prefix that owns a
  link-property step is followed by its pointer-only form, so that, in the order
  \<^verbatim>\<open>attach_path\<close> consumes them, a link property lands beside its owning step
  (section 4.3). The full path itself is part of the iteration: \<^verbatim>\<open>attach_path\<close> has no
  other way to create the node of the path it attaches.
\<close>

fun prefixes_from :: "bool \<Rightarrow> PathId \<Rightarrow> nat \<Rightarrow> PathId list" where
  "prefixes_from include_ptr p 0 = []"
| "prefixes_from include_ptr p (Suc k) =
     (p\<lparr>steps := take (Suc k) (steps p)\<rparr>)
     # (if include_ptr \<and> owns_linkprop p (Suc k)
        then [p\<lparr>steps := take (Suc k) (steps p), ptr := True\<rparr>] else [])
     @ prefixes_from include_ptr p k"

definition iter_prefixes :: "bool \<Rightarrow> PathId \<Rightarrow> PathId list" where
  "iter_prefixes include_ptr p = prefixes_from include_ptr p (length (steps p))"

text \<open>The same prefixes in the opposite order, from the root to the full path.\<close>

definition iter_prefixes_root_first :: "bool \<Rightarrow> PathId \<Rightarrow> PathId list" where
  "iter_prefixes_root_first include_ptr p = rev (iter_prefixes include_ptr p)"

text \<open>\<^verbatim>\<open>_paths_equal\<close>: equality after stripping the given namespaces from both sides;
  a missing path equals nothing.\<close>

definition paths_equal :: "PathId option \<Rightarrow> PathId option \<Rightarrow> string set \<Rightarrow> bool" where
  "paths_equal path_id_1 path_id_2 nss =
     (case path_id_1 of None \<Rightarrow> False
      | Some a \<Rightarrow>
         (case path_id_2 of None \<Rightarrow> False
          | Some b \<Rightarrow>
             (if nss \<noteq> {} then strip_namespace a nss = strip_namespace b nss
              else a = b)))"

text \<open>\<^verbatim>\<open>_paths_equal_to_shortest_ns\<close>.\<close>

definition paths_equal_to_shortest_ns :: "PathId option \<Rightarrow> PathId option \<Rightarrow> bool" where
  "paths_equal_to_shortest_ns path_id_1 path_id_2 =
     (case path_id_1 of None \<Rightarrow> False
      | Some a \<Rightarrow>
         (case path_id_2 of None \<Rightarrow> False
          | Some b \<Rightarrow>
             (if namespace a = {} \<and> namespace b = {} then a = b
              else if namespace a - namespace b \<noteq> {} \<and> namespace b - namespace a \<noteq> {}
                   then False
                   else replace_namespace a None = replace_namespace b None)))"

section \<open>Scope tree nodes in a store\<close>

text \<open>
  Nodes are mutable objects that refer to each other (children downwards, a weak parent
  reference upwards) and are moved between parents, so the tree lives in a store: a
  reference is an index and every operation takes the store and returns the new one.
  The Python \<^verbatim>\<open>children\<close> set is a list without duplicates; its iteration order, which
  Python leaves to the hash of the objects, is taken to be insertion order.
\<close>

type_synonym ref = nat

record ScopeTreeNode =
  unique_id :: "int option"
  path_id :: "PathId option"
  fenced :: bool
  protect_parent :: bool
  unnest_fence :: bool
  optional :: bool
  children :: "ref list"
  namespaces :: "string set"
  parent :: "ref option"

record store =
  nodes :: "ref \<Rightarrow> ScopeTreeNode"
  next_ref :: ref

text \<open>Exceptions. \<open>InvalidScopeConfiguration\<close> carries the offending and the existing
  node; the others are the built-in exceptions the code can run into.\<close>

datatype error =
    InvalidScopeConfiguration ref ref
  | TypeError
  | KeyError
  | AttributeError

text \<open>\<^verbatim>\<open>ScopeTreeNode.__init__\<close>: a fresh object gets the next free reference.\<close>

definition new_node :: "store \<Rightarrow> PathId option \<Rightarrow> bool \<Rightarrow> int option \<Rightarrow> store \<times> ref" where
  "new_node h pid fncd uid =
     (h\<lparr>nodes := (nodes h)(next_ref h :=
            \<lparr>unique_id = uid, path_id = pid, fenced = fncd, protect_parent = False,
             unnest_fence = False, optional = False, children = [], namespaces = {},
             parent = None\<rparr>),
         next_ref := Suc (next_ref h)\<rparr>,
      next_ref h)"

definition upd_node :: "store \<Rightarrow> ref \<Rightarrow> (ScopeTreeNode \<Rightarrow> ScopeTreeNode) \<Rightarrow> store" where
  "upd_node h r f = h\<lparr>nodes := (nodes h)(r := f (nodes h r))\<rparr>"

section \<open>Traversals\<close>

text \<open>
  The walks over parents and children are loops over the store; a loop that need not
  end on every store takes fuel, and \<open>None\<close> means the fuel ran out.
\<close>

text \<open>\<^verbatim>\<open>ancestors\<close>: the node and its parents, the node first.\<close>

fun ancestors_from :: "nat \<Rightarrow> store \<Rightarrow> ref option \<Rightarrow> ref list option" where
  "ancestors_from k h None = Some []"
| "ancestors_from 0 h (Some n) = None"
| "ancestors_from (Suc k) h (Some n) =
     map_option (Cons n) (ancestors_from k h (parent (nodes h n)))"

definition ancestors :: "nat \<Rightarrow> store \<Rightarrow> ref \<Rightarrow> ref list option" where
  "ancestors k h n = ancestors_from k h (Some n)"

definition strict_ancestors :: "nat \<Rightarrow> store \<Rightarrow> ref \<Rightarrow> ref list option" where
  "strict_ancestors k h n = ancestors_from k h (parent (nodes h n))"

text \<open>\<^verbatim>\<open>descendants\<close> and \<^verbatim>\<open>strict_descendants\<close>: top first, each child followed by
  its own descendants. The list argument holds the nodes still to be yielded.\<close>

fun descendants_of :: "nat \<Rightarrow> store \<Rightarrow> ref list \<Rightarrow> ref list option" where
  "descendants_of k h [] = Some []"
| "descendants_of 0 h (x # xs) = None"
| "descendants_of (Suc k) h (x # xs) =
     map_option (Cons x) (descendants_of k h (children (nodes h x) @ xs))"

definition descendants :: "nat \<Rightarrow> store \<Rightarrow> ref \<Rightarrow> ref list option" where
  "descendants k h n = descendants_of k h [n]"

definition strict_descendants :: "nat \<Rightarrow> store \<Rightarrow> ref \<Rightarrow> ref list option" where
  "strict_descendants k h n = descendants_of k h (children (nodes h n))"

definition path_descendants :: "nat \<Rightarrow> store \<Rightarrow> ref \<Rightarrow> ref list option" where
  "path_descendants k h n =
     map_option (filter (\<lambda>p. path_id (nodes h p) \<noteq> None)) (descendants k h n)"

text \<open>\<^verbatim>\<open>descendant_namespaces\<close>: the namespaces of every node of \<^verbatim>\<open>self.descendants\<close>.\<close>

definition descendant_namespaces :: "nat \<Rightarrow> store \<Rightarrow> ref \<Rightarrow> string set option" where
  "descendant_namespaces k h n =
     map_option (\<lambda>ds. fold (\<lambda>child acc. acc \<union> namespaces (nodes h child)) ds {})
       (descendants k h n)"

text \<open>\<^verbatim>\<open>parent_fence\<close>: the nearest fenced strict ancestor; \<^verbatim>\<open>fence\<close>: the node itself
  when fenced.\<close>

fun first_fenced :: "nat \<Rightarrow> store \<Rightarrow> ref option \<Rightarrow> ref option option" where
  "first_fenced k h None = Some None"
| "first_fenced 0 h (Some n) = None"
| "first_fenced (Suc k) h (Some n) =
     (if fenced (nodes h n) then Some (Some n) else first_fenced k h (parent (nodes h n)))"

definition parent_fence :: "nat \<Rightarrow> store \<Rightarrow> ref \<Rightarrow> ref option option" where
  "parent_fence k h n = first_fenced k h (parent (nodes h n))"

definition fence :: "nat \<Rightarrow> store \<Rightarrow> ref \<Rightarrow> ref option option" where
  "fence k h n = (if fenced (nodes h n) then Some (Some n) else parent_fence k h n)"

text \<open>
  \<^verbatim>\<open>find_visible\<close>: up through \<^verbatim>\<open>ancestors_and_namespaces\<close>, at each ancestor the
  ancestor itself and then its direct children. \<open>ans\<close> is the generator's running union
  of declared namespaces, \<open>nss\<close> the local set the comparison uses.
\<close>

fun find_visible_from ::
  "nat \<Rightarrow> store \<Rightarrow> ref option \<Rightarrow> string set \<Rightarrow> string set \<Rightarrow> PathId \<Rightarrow> ref option option" where
  "find_visible_from k h None ans nss p = Some None"
| "find_visible_from 0 h (Some n) ans nss p = None"
| "find_visible_from (Suc k) h (Some n) ans nss p =
     (if paths_equal (path_id (nodes h n)) (Some p) nss then Some (Some n)
      else (case find (\<lambda>c. paths_equal (path_id (nodes h c)) (Some p) nss)
                   (children (nodes h n)) of
              Some c \<Rightarrow> Some (Some c)
            | None \<Rightarrow>
                find_visible_from k h (parent (nodes h n))
                  (ans \<union> namespaces (nodes h n))
                  (nss \<union> (ans \<union> namespaces (nodes h n))) p))"

definition find_visible :: "nat \<Rightarrow> store \<Rightarrow> ref \<Rightarrow> PathId \<Rightarrow> ref option option" where
  "find_visible k h n p = find_visible_from k h (Some n) {} {} p"

definition is_visible :: "nat \<Rightarrow> store \<Rightarrow> ref \<Rightarrow> PathId \<Rightarrow> bool option" where
  "is_visible k h n p = map_option (\<lambda>r. r \<noteq> None) (find_visible k h n p)"

text \<open>\<^verbatim>\<open>find_child\<close>: the direct children, and with \<open>in_branches\<close> also the children of
  unfenced path-less children, recursively. The list holds the children still to look at.\<close>

fun find_child_in :: "nat \<Rightarrow> store \<Rightarrow> ref list \<Rightarrow> PathId \<Rightarrow> bool \<Rightarrow> ref option option" where
  "find_child_in k h [] p in_branches = Some None"
| "find_child_in 0 h (c # cs) p in_branches = None"
| "find_child_in (Suc k) h (c # cs) p in_branches =
     (if path_id (nodes h c) = Some p then Some (Some c)
      else if in_branches \<and> path_id (nodes h c) = None \<and> \<not> fenced (nodes h c)
      then (case find_child_in k h (children (nodes h c)) p True of
              None \<Rightarrow> None
            | Some (Some d) \<Rightarrow> Some (Some d)
            | Some None \<Rightarrow> find_child_in k h cs p in_branches)
      else find_child_in k h cs p in_branches)"

definition find_child :: "nat \<Rightarrow> store \<Rightarrow> ref \<Rightarrow> PathId \<Rightarrow> bool \<Rightarrow> ref option option" where
  "find_child k h n p in_branches = find_child_in k h (children (nodes h n)) p in_branches"

text \<open>\<^verbatim>\<open>find_descendant_and_ns\<close> over \<^verbatim>\<open>strict_descendants_and_namespaces\<close>: each
  pending node comes with the namespaces declared on the way down to it.\<close>

fun find_descendant_in ::
  "nat \<Rightarrow> store \<Rightarrow> (ref \<times> string set) list \<Rightarrow> PathId \<Rightarrow> (ref \<times> string set) option option" where
  "find_descendant_in k h [] p = Some None"
| "find_descendant_in 0 h (x # xs) p = None"
| "find_descendant_in (Suc k) h ((d, outer) # xs) p =
     (if paths_equal (path_id (nodes h d)) (Some p) (outer \<union> namespaces (nodes h d))
      then Some (Some (d, outer \<union> namespaces (nodes h d)))
      else find_descendant_in k h
             (map (\<lambda>c. (c, outer \<union> namespaces (nodes h d))) (children (nodes h d)) @ xs) p)"

definition find_descendant_and_ns ::
  "nat \<Rightarrow> store \<Rightarrow> ref \<Rightarrow> PathId \<Rightarrow> (ref \<times> string set) option option" where
  "find_descendant_and_ns k h n p =
     find_descendant_in k h (map (\<lambda>c. (c, {})) (children (nodes h n))) p"

text \<open>\<^verbatim>\<open>find_unfenced\<close>: at each ancestor its \<^verbatim>\<open>unfenced_descendants\<close> (the ancestor
  first, then what is reachable through unfenced children); the flag tells whether a
  node marked \<^verbatim>\<open>unnest_fence\<close> was left behind on the way up.\<close>

fun find_in_unfenced :: "nat \<Rightarrow> store \<Rightarrow> ref list \<Rightarrow> PathId \<Rightarrow> string set \<Rightarrow> ref option option" where
  "find_in_unfenced k h [] p nss = Some None"
| "find_in_unfenced 0 h (x # xs) p nss = None"
| "find_in_unfenced (Suc k) h (x # xs) p nss =
     (if paths_equal (path_id (nodes h x)) (Some p) nss then Some (Some x)
      else find_in_unfenced k h
             (filter (\<lambda>c. \<not> fenced (nodes h c)) (children (nodes h x)) @ xs) p nss)"

fun find_unfenced_from ::
  "nat \<Rightarrow> store \<Rightarrow> ref option \<Rightarrow> string set \<Rightarrow> string set \<Rightarrow> bool \<Rightarrow> PathId
     \<Rightarrow> (ref option \<times> bool) option" where
  "find_unfenced_from k h None ans nss seen p = Some (None, seen)"
| "find_unfenced_from 0 h (Some n) ans nss seen p = None"
| "find_unfenced_from (Suc k) h (Some n) ans nss seen p =
     (case find_in_unfenced k h [n] p nss of
        None \<Rightarrow> None
      | Some (Some d) \<Rightarrow> Some (Some d, seen)
      | Some None \<Rightarrow>
          find_unfenced_from k h (parent (nodes h n))
            (ans \<union> namespaces (nodes h n))
            (nss \<union> (ans \<union> namespaces (nodes h n)))
            (seen \<or> unnest_fence (nodes h n)) p)"

definition find_unfenced :: "nat \<Rightarrow> store \<Rightarrow> ref \<Rightarrow> PathId \<Rightarrow> (ref option \<times> bool) option" where
  "find_unfenced k h n p = find_unfenced_from k h (Some n) {} {} False p"

section \<open>Structural edits\<close>

text \<open>\<^verbatim>\<open>_set_parent\<close>. Removing the node from a \<^verbatim>\<open>children\<close> set that does not hold
  it is Python's \<^verbatim>\<open>KeyError\<close>; adding it to a set that holds it already changes nothing.\<close>

definition set_parent :: "store \<Rightarrow> ref \<Rightarrow> ref option \<Rightarrow> error + store" where
  "set_parent h self new_parent =
     (if new_parent = parent (nodes h self) then Inr h
      else
        (case (case parent (nodes h self) of
                 None \<Rightarrow> Inr h
               | Some cp \<Rightarrow>
                   (if self \<in> set (children (nodes h cp))
                    then Inr (upd_node h cp (\<lambda>n. n\<lparr>children := removeAll self (children n)\<rparr>))
                    else Inl KeyError)) of
           Inl e \<Rightarrow> Inl e
         | Inr h1 \<Rightarrow>
            (case new_parent of
               Some p \<Rightarrow>
                 Inr (upd_node (upd_node h1 self (\<lambda>n. n\<lparr>parent := Some p\<rparr>)) p
                        (\<lambda>n. n\<lparr>children := (if self \<in> set (children n) then children n
                                             else children n @ [self])\<rparr>))
             | None \<Rightarrow> Inr (upd_node h1 self (\<lambda>n. n\<lparr>parent := None\<rparr>)))))"

text \<open>
  \<^verbatim>\<open>attach_child\<close>. On a path collision the code evaluates
  \<^verbatim>\<open>InvalidScopeConfiguration(msg)\<close> with the message alone, while the constructor's
  \<^verbatim>\<open>offending_node\<close> and \<^verbatim>\<open>existing_node\<close> are keyword-only parameters without defaults:
  the call itself fails with \<^verbatim>\<open>TypeError\<close> and that is what propagates.
\<close>

definition attach_child :: "store \<Rightarrow> ref \<Rightarrow> ref \<Rightarrow> error + store" where
  "attach_child h self node =
     (if path_id (nodes h node) \<noteq> None
         \<and> list_ex (\<lambda>child. path_id (nodes h child) = path_id (nodes h node))
              (children (nodes h self))
      then Inl TypeError
      else if unique_id (nodes h node) \<noteq> None
         \<and> list_ex (\<lambda>child. unique_id (nodes h child) = unique_id (nodes h node))
              (children (nodes h self))
      then Inr h
      else set_parent h node (Some self))"

definition remove_subtree :: "store \<Rightarrow> ref \<Rightarrow> ref \<Rightarrow> error + store" where
  "remove_subtree h self node =
     (if node \<notin> set (children (nodes h self)) then Inl KeyError
      else set_parent h node None)"

definition remove :: "store \<Rightarrow> ref \<Rightarrow> error + store" where
  "remove h self =
     (case parent (nodes h self) of None \<Rightarrow> Inr h | Some p \<Rightarrow> remove_subtree h p self)"

fun remove_all :: "store \<Rightarrow> ref list \<Rightarrow> error + store" where
  "remove_all h [] = Inr h"
| "remove_all h (n # ns) =
     (case remove h n of Inl e \<Rightarrow> Inl e | Inr h1 \<Rightarrow> remove_all h1 ns)"

text \<open>\<^verbatim>\<open>remove_descendants\<close>: collect the matching nodes first, then remove each.\<close>

definition remove_descendants :: "nat \<Rightarrow> store \<Rightarrow> ref \<Rightarrow> PathId \<Rightarrow> (error + store) option" where
  "remove_descendants k h self p =
     map_option
       (\<lambda>ds. remove_all h
          (remdups (filter (\<lambda>n. paths_equal_to_shortest_ns (path_id (nodes h n)) (Some p)) ds)))
       (descendants k h self)"

text \<open>\<^verbatim>\<open>for child in tuple(node.children): subtree.attach_child(child)\<close>.\<close>

fun attach_all :: "store \<Rightarrow> ref \<Rightarrow> ref list \<Rightarrow> error + store" where
  "attach_all h subtree [] = Inr h"
| "attach_all h subtree (c # cs) =
     (case attach_child h subtree c of Inl e \<Rightarrow> Inl e | Inr h1 \<Rightarrow> attach_all h1 subtree cs)"

text \<open>\<^verbatim>\<open>mark_as_optional\<close> and \<^verbatim>\<open>is_optional\<close>.\<close>

definition mark_as_optional :: "nat \<Rightarrow> store \<Rightarrow> ref \<Rightarrow> PathId \<Rightarrow> store option" where
  "mark_as_optional k h self p =
     (case find_visible k h self p of
        None \<Rightarrow> None
      | Some None \<Rightarrow> Some h
      | Some (Some node) \<Rightarrow> Some (upd_node h node (\<lambda>n. n\<lparr>optional := True\<rparr>)))"

definition is_optional :: "nat \<Rightarrow> store \<Rightarrow> ref \<Rightarrow> PathId \<Rightarrow> bool option" where
  "is_optional k h self p =
     (case find_visible k h self p of
        None \<Rightarrow> None
      | Some None \<Rightarrow> Some False
      | Some (Some node) \<Rightarrow> Some (optional (nodes h node)))"

section \<open>Merging a subtree\<close>

text \<open>The first step of \<^verbatim>\<open>attach_subtree\<close>: a path node is put under a fresh fence.\<close>

definition wrap_path_node :: "store \<Rightarrow> ref \<Rightarrow> error + store \<times> ref" where
  "wrap_path_node h node =
     (if path_id (nodes h node) \<noteq> None
      then (case new_node h None True None of
              (h1, wrapper_node) \<Rightarrow>
                (case attach_child h1 wrapper_node node of
                   Inl e \<Rightarrow> Inl e
                 | Inr h2 \<Rightarrow> Inr (h2, wrapper_node)))
      else Inr (h, node))"

text \<open>
  The unfenced case of the loop, up to the call of \<^verbatim>\<open>fuse_subtree\<close>.
  \<open>locate_existing\<close> gives \<^verbatim>\<open>existing\<close>, \<^verbatim>\<open>existing_ns\<close>, \<^verbatim>\<open>unnest_fence\<close> and
  \<^verbatim>\<open>parent_fence\<close> as the code has them before \<^verbatim>\<open>if existing is not None\<close>.
\<close>

definition locate_existing ::
  "nat \<Rightarrow> store \<Rightarrow> ref \<Rightarrow> PathId \<Rightarrow> (ref option \<times> string set \<times> bool \<times> ref option) option" where
  "locate_existing k h self p =
     (case find_descendant_and_ns k h self p of
        None \<Rightarrow> None
      | Some (Some (existing, existing_ns)) \<Rightarrow>
          map_option (\<lambda>pf. (Some existing, existing_ns, False, pf)) (fence k h self)
      | Some None \<Rightarrow>
          (case find_unfenced k h self p of
             None \<Rightarrow> None
           | Some (None, unf) \<Rightarrow> Some (None, {}, unf, None)
           | Some (Some existing, unf) \<Rightarrow>
               map_option (\<lambda>pf. (Some existing, {}, unf, pf)) (parent_fence k h existing)))"

text \<open>The node named as offending: the parent of the incoming node when it carries a
  path (a \<^verbatim>\<open>PathId\<close> is taken to be truthy), else the incoming node.\<close>

definition offending_node :: "store \<Rightarrow> ref \<Rightarrow> error + ref" where
  "offending_node h descendant =
     (case parent (nodes h descendant) of
        None \<Rightarrow> Inl AttributeError
      | Some dp \<Rightarrow> Inr (if path_id (nodes h dp) \<noteq> None then dp else descendant))"

definition hoist_existing ::
  "nat \<Rightarrow> store \<Rightarrow> ref \<Rightarrow> ref \<Rightarrow> string set \<Rightarrow> PathId \<Rightarrow> (error + store) option" where
  "hoist_existing k h pf existing existing_ns p =
     (case remove_descendants k h pf p of
        None \<Rightarrow> None
      | Some (Inl e) \<Rightarrow> Some (Inl e)
      | Some (Inr h1) \<Rightarrow>
          (case path_id (nodes h1 existing) of
             None \<Rightarrow> Some (Inl AttributeError)
           | Some ep \<Rightarrow>
               Some (attach_child
                       (upd_node h1 existing
                          (\<lambda>n. n\<lparr>path_id := Some (strip_namespace ep existing_ns)\<rparr>))
                       pf existing)))"

definition resolve_unfenced ::
  "nat \<Rightarrow> store \<Rightarrow> ref \<Rightarrow> ref \<Rightarrow> PathId \<Rightarrow> (error + store \<times> ref option) option" where
  "resolve_unfenced k h self descendant p =
     (case locate_existing k h self p of
        None \<Rightarrow> None
      | Some (None, existing_ns, unf, pfo) \<Rightarrow> Some (Inr (h, None))
      | Some (Some existing, existing_ns, unf, None) \<Rightarrow> Some (Inl AttributeError)
      | Some (Some existing, existing_ns, unf, Some pf) \<Rightarrow>
          (case find_child k h pf p False of
             None \<Rightarrow> None
           | Some (Some c) \<Rightarrow> Some (Inr (h, Some existing))
           | Some None \<Rightarrow>
               (case (if unf then map_option (\<lambda>r. r = None) (find_child k h pf p True)
                      else Some False) of
                  None \<Rightarrow> None
                | Some True \<Rightarrow>
                    (case offending_node h descendant of
                       Inl e \<Rightarrow> Some (Inl e)
                     | Inr off \<Rightarrow> Some (Inl (InvalidScopeConfiguration off existing)))
                | Some False \<Rightarrow>
                    (case hoist_existing k h pf existing existing_ns p of
                       None \<Rightarrow> None
                     | Some (Inl e) \<Rightarrow> Some (Inl e)
                     | Some (Inr h1) \<Rightarrow> Some (Inr (h1, Some existing))))))"

text \<open>The closing loop of \<^verbatim>\<open>attach_subtree\<close>: what is left under the incoming root loses
  the namespaces the root declares and is attached to \<^verbatim>\<open>self\<close>.\<close>

definition strip_declared :: "store \<Rightarrow> ref \<Rightarrow> ref list \<Rightarrow> store" where
  "strip_declared h node pds =
     fold (\<lambda>pd h1.
             (case path_id (nodes h1 pd) of
                None \<Rightarrow> h1
              | Some p \<Rightarrow>
                  (if namespace p \<noteq> {}
                   then upd_node h1 pd
                          (\<lambda>n. n\<lparr>path_id :=
                             Some (strip_namespace p (namespace p \<inter> namespaces (nodes h1 node)))\<rparr>)
                   else h1)))
          pds h"

fun attach_remaining :: "nat \<Rightarrow> store \<Rightarrow> ref \<Rightarrow> ref \<Rightarrow> ref list \<Rightarrow> (error + store) option" where
  "attach_remaining k h self node [] = Some (Inr h)"
| "attach_remaining k h self node (d # ds) =
     (case path_descendants k h d of
        None \<Rightarrow> None
      | Some pds \<Rightarrow>
          (case attach_child (strip_declared h node pds) self d of
             Inl e \<Rightarrow> Some (Inl e)
           | Inr h1 \<Rightarrow> attach_remaining k h1 self node ds))"

text \<open>
  \<^verbatim>\<open>attach_subtree\<close> and \<^verbatim>\<open>fuse_subtree\<close>. The main loop runs over the lazy iterator
  \<^verbatim>\<open>node.path_descendants\<close> while its body edits the tree: the iterator reads a node's
  children only after the body has run for that node, so the loop keeps the list of nodes
  still to be yielded and puts the current children of the node just handled in front.
  All three functions share the fuel.
\<close>

fun attach_subtree :: "nat \<Rightarrow> store \<Rightarrow> ref \<Rightarrow> ref \<Rightarrow> (error + store) option"
  and attach_descendants ::
    "nat \<Rightarrow> store \<Rightarrow> ref \<Rightarrow> ref \<Rightarrow> string set \<Rightarrow> ref list \<Rightarrow> (error + store) option"
  and fuse_subtree :: "nat \<Rightarrow> store \<Rightarrow> ref \<Rightarrow> ref \<Rightarrow> (error + store) option" where
  "attach_subtree 0 h self node0 = None"
| "attach_subtree (Suc k) h self node0 =
     (case wrap_path_node h node0 of
        Inl e \<Rightarrow> Some (Inl e)
      | Inr (h1, node) \<Rightarrow>
          (case descendant_namespaces k h1 node of
             None \<Rightarrow> None
           | Some dns \<Rightarrow>
               (case attach_descendants k h1 self node dns [node] of
                  None \<Rightarrow> None
                | Some (Inl e) \<Rightarrow> Some (Inl e)
                | Some (Inr h2) \<Rightarrow>
                    attach_remaining k h2 self node (children (nodes h2 node)))))"
| "attach_descendants k h self node dns [] = Some (Inr h)"
| "attach_descendants 0 h self node dns (d # rest) = None"
| "attach_descendants (Suc k) h self node dns (d # rest) =
     (case path_id (nodes h d) of
        None \<Rightarrow> attach_descendants k h self node dns (children (nodes h d) @ rest)
      | Some dp \<Rightarrow>
          (case find_visible k h self (strip_namespace dp dns) of
             None \<Rightarrow> None
           | Some (Some visible) \<Rightarrow>
               (case remove h d of
                  Inl e \<Rightarrow> Some (Inl e)
                | Inr h1 \<Rightarrow>
                    (if optional (nodes h1 d)
                     then attach_descendants k
                            (upd_node h1 visible (\<lambda>n. n\<lparr>optional := True\<rparr>)) self node dns
                            (children (nodes (upd_node h1 visible (\<lambda>n. n\<lparr>optional := True\<rparr>)) d)
                             @ rest)
                     else attach_descendants k h1 self node dns
                            (children (nodes h1 d) @ rest)))
           | Some None \<Rightarrow>
               (case parent_fence k h d of
                  None \<Rightarrow> None
                | Some pf \<Rightarrow>
                    (if pf \<noteq> Some node
                     then attach_descendants k h self node dns (children (nodes h d) @ rest)
                     else
                       (case resolve_unfenced k h self d (strip_namespace dp dns) of
                          None \<Rightarrow> None
                        | Some (Inl e) \<Rightarrow> Some (Inl e)
                        | Some (Inr (h1, None)) \<Rightarrow>
                            attach_descendants k h1 self node dns
                              (children (nodes h1 d) @ rest)
                        | Some (Inr (h1, Some existing)) \<Rightarrow>
                            (case fuse_subtree k h1 existing d of
                               None \<Rightarrow> None
                             | Some (Inl e) \<Rightarrow> Some (Inl e)
                             | Some (Inr h2) \<Rightarrow>
                                 attach_descendants k h2 self node dns
                                   (children (nodes h2 d) @ rest)))))))"
| "fuse_subtree 0 h self node = None"
| "fuse_subtree (Suc k) h self node =
     (case remove h node of
        Inl e \<Rightarrow> Some (Inl e)
      | Inr h1 \<Rightarrow>
          (if path_id (nodes h1 node) \<noteq> None
           then (case new_node
                        (if optional (nodes h1 node)
                         then upd_node h1 self (\<lambda>n. n\<lparr>optional := True\<rparr>) else h1)
                        None True None of
                   (h2, subtree) \<Rightarrow>
                     (case attach_all h2 subtree (children (nodes h2 node)) of
                        Inl e \<Rightarrow> Some (Inl e)
                      | Inr h3 \<Rightarrow> attach_subtree k h3 self subtree))
           else attach_subtree k h1 self node))"

text \<open>
  \<^verbatim>\<open>attach_path\<close>: a chain of fresh nodes under a fresh fence, one per prefix in the
  order \<^verbatim>\<open>reversed(list(path_id.iter_prefixes(include_ptr=True)))\<close>, merged with
  \<^verbatim>\<open>attach_subtree\<close>. The prefix iteration belongs to the missing \<^verbatim>\<open>pathid\<close> module and
  is a parameter.
\<close>

fun build_chain :: "store \<Rightarrow> ref \<Rightarrow> bool \<Rightarrow> PathId list \<Rightarrow> error + store" where
  "build_chain h par is_lprop [] = Inr h"
| "build_chain h par is_lprop (prefix # rest) =
     (if is_ptr_path prefix then build_chain h par True rest
      else (case new_node h (Some prefix) False None of
              (h1, new_child) \<Rightarrow>
                (case attach_child h1 par new_child of
                   Inl e \<Rightarrow> Inl e
                 | Inr h2 \<Rightarrow>
                     build_chain h2
                       (if \<not> (is_lprop \<or> is_linkprop_path prefix) then new_child else par)
                       False rest)))"

definition attach_path ::
  "(bool \<Rightarrow> PathId \<Rightarrow> PathId list) \<Rightarrow> nat \<Rightarrow> store \<Rightarrow> ref \<Rightarrow> PathId \<Rightarrow> (error + store) option" where
  "attach_path prefixes k h self p =
     (case new_node h None True None of
        (h1, subtree) \<Rightarrow>
          (case build_chain h1 subtree False (rev (prefixes True p)) of
             Inl e \<Rightarrow> Some (Inl e)
           | Inr h2 \<Rightarrow> attach_subtree k h2 self subtree))"

section \<open>The compiler's path context\<close>

text \<open>The two fields of the compiler context (\<^verbatim>\<open>context.ContextLevel\<close>, not among the
  sources) that \<^verbatim>\<open>ban_path\<close> and \<^verbatim>\<open>path_is_banned\<close> use.\<close>

record ContextLevel =
  banned_paths :: "PathId set"
  path_scope :: ref

definition ban_path :: "PathId \<Rightarrow> ContextLevel \<Rightarrow> ContextLevel" where
  "ban_path p ctx = ctx\<lparr>banned_paths := insert (strip_weak_namespaces p) (banned_paths ctx)\<rparr>"

text \<open>Python's \<^verbatim>\<open>and\<close> evaluates the visibility check only for a path in the table.\<close>

definition path_is_banned :: "nat \<Rightarrow> store \<Rightarrow> PathId \<Rightarrow> ContextLevel \<Rightarrow> bool option" where
  "path_is_banned k h p ctx =
     (if strip_weak_namespaces p \<in> banned_paths ctx
      then is_visible k h (path_scope ctx) p
      else Some False)"

section \<open>Well-formed stores and example trees\<close>

text \<open>
  \<^verbatim>\<open>_set_parent\<close> keeps the two directions of the tree in step: among the allocated
  nodes, a node is in the \<^verbatim>\<open>children\<close> of exactly the node its parent reference names.
\<close>

definition well_formed :: "store \<Rightarrow> bool" where
  "well_formed h =
     list_all
       (\<lambda>p. list_all (\<lambda>c. c < next_ref h \<and> parent (nodes h c) = Some p)
                (children (nodes h p))
            \<and> (case parent (nodes h p) of
                  None \<Rightarrow> True
                | Some q \<Rightarrow> q < next_ref h \<and> p \<in> set (children (nodes h q))))
       [0..<next_ref h]"

text \<open>No allocated node outside the list \<open>inside\<close> carries a path with the steps of \<open>p\<close>.\<close>

definition absent_outside :: "store \<Rightarrow> ref list \<Rightarrow> PathId \<Rightarrow> bool" where
  "absent_outside h inside p =
     list_all
       (\<lambda>m. m \<in> set inside
            \<or> (case path_id (nodes h m) of None \<Rightarrow> True | Some q \<Rightarrow> steps q \<noteq> steps p))
       [0..<next_ref h]"

text \<open>The node reached from \<open>d\<close> by following the parent reference \<open>j\<close> times.\<close>

fun nth_parent :: "store \<Rightarrow> nat \<Rightarrow> ref \<Rightarrow> ref option" where
  "nth_parent h 0 d = Some d"
| "nth_parent h (Suc j) d =
     (case parent (nodes h d) of None \<Rightarrow> None | Some q \<Rightarrow> nth_parent h j q)"

definition path_A :: PathId where
  "path_A = \<lparr>steps = [Step ''A'' False], namespace = {}, ptr = False\<rparr>"

definition path_A_b :: PathId where
  "path_A_b = \<lparr>steps = [Step ''A'' False, Step ''b'' False], namespace = {}, ptr = False\<rparr>"

definition path_A_b_c :: PathId where
  "path_A_b_c =
     \<lparr>steps = [Step ''A'' False, Step ''b'' False, Step ''c'' False], namespace = {},
      ptr = False\<rparr>"

definition mk_node :: "PathId option \<Rightarrow> bool \<Rightarrow> ref list \<Rightarrow> ref option \<Rightarrow> ScopeTreeNode" where
  "mk_node pid fncd cs par =
     \<lparr>unique_id = None, path_id = pid, fenced = fncd, protect_parent = False,
      unnest_fence = False, optional = False, children = cs, namespaces = {},
      parent = par\<rparr>"

text \<open>A store holding one root node \<open>r\<close> at reference 0.\<close>

definition root_only :: "ScopeTreeNode \<Rightarrow> store" where
  "root_only r = \<lparr>nodes = (\<lambda>_. mk_node None False [] None)(0 := r), next_ref = 1\<rparr>"

text \<open>A root (0) with a fence (1) and a branch (4) as children; the fence holds the
  path \<open>A\<close> (2), which holds \<open>A.b\<close> (3).\<close>

definition fence_tree :: store where
  "fence_tree =
     \<lparr>nodes = (\<lambda>_. mk_node None False [] None)
        (0 := mk_node None False [1, 4] None,
         1 := mk_node None True [2] (Some 0),
         2 := mk_node (Some path_A) False [3] (Some 1),
         3 := mk_node (Some path_A_b) False [] (Some 2),
         4 := mk_node None False [] (Some 0)),
      next_ref = 5\<rparr>"

text \<open>A root (0) with a fence (1) holding the path \<open>A\<close> (2), and a second node with
  the path \<open>A\<close> (3) beside the fence.\<close>

definition sibling_tree :: store where
  "sibling_tree =
     \<lparr>nodes = (\<lambda>_. mk_node None False [] None)
        (0 := mk_node None False [1, 3] None,
         1 := mk_node None True [2] (Some 0),
         2 := mk_node (Some path_A) False [] (Some 1),
         3 := mk_node (Some path_A) False [] (Some 0)),
      next_ref = 4\<rparr>"

text \<open>
  Scenario C: a fenced root (0) holds the path \<open>A\<close> (1) with \<open>A.b\<close> (2) below it, and a
  fence marked \<^verbatim>\<open>unnest_fence\<close> (3). The incoming subtree is a fence (4) with the
  unfenced path \<open>A.b\<close> (5), to be merged at node 3.
\<close>

definition scenario_c :: store where
  "scenario_c =
     \<lparr>nodes = (\<lambda>_. mk_node None False [] None)
        (0 := mk_node None True [1, 3] None,
         1 := mk_node (Some path_A) False [2] (Some 0),
         2 := mk_node (Some path_A_b) False [] (Some 1),
         3 := (mk_node None True [] (Some 0))\<lparr>unnest_fence := True\<rparr>,
         4 := mk_node None True [5] None,
         5 := mk_node (Some path_A_b) False [] (Some 4)),
      next_ref = 6\<rparr>"

text \<open>A root (0) with the child \<open>A\<close> (1), and a detached node (2) with the path
  \<open>p\<close>; both nodes carry the unique id \<open>uid\<close>.\<close>

definition collision_store :: "int option \<Rightarrow> PathId option \<Rightarrow> store" where
  "collision_store uid p =
     \<lparr>nodes = (\<lambda>_. mk_node None False [] None)
        (0 := mk_node None False [1] None,
         1 := (mk_node (Some path_A) False [] (Some 0))\<lparr>unique_id := uid\<rparr>,
         2 := (mk_node p False [] None)\<lparr>unique_id := uid\<rparr>),
      next_ref = 3\<rparr>"

text \<open>A fence (0) that declares the namespace \<open>x\<close>, with the child \<open>A\<close> (1) that
  declares \<open>y\<close>.\<close>

definition namespace_store :: store where
  "namespace_store =
     \<lparr>nodes = (\<lambda>_. mk_node None False [] None)
        (0 := (mk_node None True [1] None)\<lparr>namespaces := {''x''}\<rparr>,
         1 := (mk_node (Some path_A) False [] (Some 0))\<lparr>namespaces := {''y''}\<rparr>),
      next_ref = 2\<rparr>"

text \<open>A root (0) with the child \<open>A\<close> (1); the incoming fence (2) holds an optional
  \<open>A\<close> (3).\<close>

definition optional_visible_store :: store where
  "optional_visible_store =
     \<lparr>nodes = (\<lambda>_. mk_node None False [] None)
        (0 := mk_node None True [1] None,
         1 := mk_node (Some path_A) False [] (Some 0),
         2 := mk_node None True [3] None,
         3 := (mk_node (Some path_A) False [] (Some 2))\<lparr>optional := True\<rparr>),
      next_ref = 4\<rparr>"

text \<open>A fenced root (0) with a branch (1) that holds \<open>A\<close> (2); the incoming fence (3)
  holds an optional \<open>A\<close> (4).\<close>

definition optional_fuse_store :: store where
  "optional_fuse_store =
     \<lparr>nodes = (\<lambda>_. mk_node None False [] None)
        (0 := mk_node None True [1] None,
         1 := mk_node None False [2] (Some 0),
         2 := mk_node (Some path_A) False [] (Some 1),
         3 := mk_node None True [4] None,
         4 := (mk_node (Some path_A) False [] (Some 3))\<lparr>optional := True\<rparr>),
      next_ref = 5\<rparr>"

section \<open>Observations used in the statements\<close>

text \<open>Several paths attached one after the other at the same node, as the compiler does
  for the sets of a query; the first error ends the run.\<close>

fun attach_paths ::
  "(bool \<Rightarrow> PathId \<Rightarrow> PathId list) \<Rightarrow> nat \<Rightarrow> store \<Rightarrow> ref \<Rightarrow> PathId list \<Rightarrow> (error + store) option" where
  "attach_paths prefixes k h self [] = Some (Inr h)"
| "attach_paths prefixes k h self (p # ps) =
     (case attach_path prefixes k h self p of
        None \<Rightarrow> None
      | Some (Inl e) \<Rightarrow> Some (Inl e)
      | Some (Inr h1) \<Rightarrow> attach_paths prefixes k h1 self ps)"

text \<open>The tree under a node as a list, top first: each node with its path and its
  children.\<close>

definition tree_shape :: "nat \<Rightarrow> store \<Rightarrow> ref \<Rightarrow> (ref \<times> PathId option \<times> ref list) list option" where
  "tree_shape k h r =
     map_option (map (\<lambda>n. (n, path_id (nodes h n), children (nodes h n)))) (descendants k h r)"

text \<open>Some node under \<open>r\<close> is labelled \<open>p\<close> and has a direct child labelled \<open>q\<close>.\<close>

definition holds_nested :: "nat \<Rightarrow> store \<Rightarrow> ref \<Rightarrow> PathId \<Rightarrow> PathId \<Rightarrow> bool option" where
  "holds_nested k h r p q =
     map_option
       (list_ex (\<lambda>n. path_id (nodes h n) = Some p
                    \<and> list_ex (\<lambda>c. path_id (nodes h c) = Some q) (children (nodes h n))))
       (descendants k h r)"

text \<open>From \<open>h\<close> to \<open>h'\<close> no node was deallocated and no set \<^verbatim>\<open>optional\<close> flag of an
  allocated node was cleared.\<close>

definition optional_kept :: "store \<Rightarrow> store \<Rightarrow> bool" where
  "optional_kept h h' =
     (next_ref h \<le> next_ref h'
      \<and> (\<forall>r. r < next_ref h \<longrightarrow> optional (nodes h r) \<longrightarrow> optional (nodes h' r)))"

section \<open>Path comparison\<close>

lemma strip_namespace_eq_iff:
  "strip_namespace a nss = strip_namespace b nss
     \<longleftrightarrow> steps a = steps b \<and> namespace a - nss = namespace b - nss \<and> ptr a = ptr b"
  by (cases a, cases b) (auto simp: strip_namespace_def)

lemma paths_equal_mono:
  assumes "paths_equal a b nss" and "nss \<subseteq> nss'"
  shows "paths_equal a b nss'"
proof -
  from assms(1) obtain x y where ab: "a = Some x" "b = Some y"
    by (auto simp: paths_equal_def split: option.splits)
  have "strip_namespace x nss = strip_namespace y nss"
    using assms(1) ab by (auto simp: paths_equal_def split: if_splits)
  then have st: "steps x = steps y" "ptr x = ptr y"
    and ns: "namespace x - nss = namespace y - nss"
    by (simp_all add: strip_namespace_eq_iff)
  have "namespace x - nss' = (namespace x - nss) - nss'" using assms(2) by blast
  also have "\<dots> = (namespace y - nss) - nss'" by (simp add: ns)
  also have "\<dots> = namespace y - nss'" using assms(2) by blast
  finally have "strip_namespace x nss' = strip_namespace y nss'"
    using st by (simp add: strip_namespace_eq_iff)
  moreover have "nss' = {} \<Longrightarrow> x = y"
  proof -
    assume "nss' = {}"
    then have "nss = {}" using assms(2) by simp
    then show "x = y" using assms(1) ab by (simp add: paths_equal_def)
  qed
  ultimately show ?thesis using ab by (simp add: paths_equal_def)
qed

lemma paths_equal_steps:
  "paths_equal (Some a) (Some b) nss \<Longrightarrow> steps a = steps b"
  by (auto simp: paths_equal_def strip_namespace_eq_iff split: if_splits)

lemma paths_equal_refl: "paths_equal (Some a) (Some a) nss"
  by (simp add: paths_equal_def)

lemma find_mono:
  "find P xs = Some c \<Longrightarrow> (\<And>x. P x \<Longrightarrow> Q x) \<Longrightarrow> \<exists>c'. find Q xs = Some c'"
  by (induction xs) (auto split: if_splits)

lemma find_visible_from_mono:
  "find_visible_from k h r ans nss p = Some (Some m) \<Longrightarrow> nss \<subseteq> nss' \<Longrightarrow> ans \<subseteq> ans' \<Longrightarrow>
     \<exists>m'. find_visible_from k h r ans' nss' p = Some (Some m')"
proof (induction k h r ans nss p arbitrary: ans' nss' rule: find_visible_from.induct)
  case (1 k h ans nss p)
  then show ?case by simp
next
  case (2 h n ans nss p)
  then show ?case by simp
next
  case (3 k h n ans nss p)
  show ?case
  proof (cases "paths_equal (path_id (nodes h n)) (Some p) nss")
    case True
    then have "paths_equal (path_id (nodes h n)) (Some p) nss'"
      using "3.prems"(2) by (rule paths_equal_mono)
    then show ?thesis by simp
  next
    case False
    note notself = this
    show ?thesis
    proof (cases "find (\<lambda>c. paths_equal (path_id (nodes h c)) (Some p) nss) (children (nodes h n))")
      case (Some c)
      then obtain c' where
        "find (\<lambda>c. paths_equal (path_id (nodes h c)) (Some p) nss') (children (nodes h n)) = Some c'"
        using find_mono [OF Some, of "\<lambda>c. paths_equal (path_id (nodes h c)) (Some p) nss'"]
          paths_equal_mono [OF _ "3.prems"(2)] by blast
      then show ?thesis by simp
    next
      case None
      from "3.prems"(1) notself None have rec:
        "find_visible_from k h (parent (nodes h n)) (ans \<union> namespaces (nodes h n))
           (nss \<union> (ans \<union> namespaces (nodes h n))) p = Some (Some m)"
        by simp
      have s1: "nss \<union> (ans \<union> namespaces (nodes h n)) \<subseteq> nss' \<union> (ans' \<union> namespaces (nodes h n))"
        using "3.prems"(2,3) by blast
      have s2: "ans \<union> namespaces (nodes h n) \<subseteq> ans' \<union> namespaces (nodes h n)"
        using "3.prems"(3) by blast
      from "3.IH" [OF notself None rec s1 s2] obtain m' where
        "find_visible_from k h (parent (nodes h n)) (ans' \<union> namespaces (nodes h n))
           (nss' \<union> (ans' \<union> namespaces (nodes h n))) p = Some (Some m')" by blast
      then show ?thesis by (auto split: option.splits)
    qed
  qed
qed

lemma find_visible_from_below:
  "nth_parent h j d = Some n \<Longrightarrow>
   find_visible_from k h (Some n) ans nss p = Some (Some m) \<Longrightarrow>
   nss \<subseteq> nss0 \<Longrightarrow> ans \<subseteq> ans0 \<Longrightarrow>
   \<exists>m'. find_visible_from (j + k) h (Some d) ans0 nss0 p = Some (Some m')"
proof (induction j arbitrary: d ans0 nss0)
  case 0
  then show ?case using find_visible_from_mono by simp
next
  case (Suc j)
  from Suc.prems(1) obtain q where q: "parent (nodes h d) = Some q" "nth_parent h j q = Some n"
    by (auto split: option.splits)
  have s1: "nss \<subseteq> nss0 \<union> (ans0 \<union> namespaces (nodes h d))" using Suc.prems(3) by blast
  have s2: "ans \<subseteq> ans0 \<union> namespaces (nodes h d)" using Suc.prems(4) by blast
  from Suc.IH [OF q(2) Suc.prems(2) s1 s2] obtain m' where
    "find_visible_from (j + k) h (Some q) (ans0 \<union> namespaces (nodes h d))
       (nss0 \<union> (ans0 \<union> namespaces (nodes h d))) p = Some (Some m')" by blast
  then show ?case using q by (auto split: option.splits)
qed

lemma well_formed_child:
  assumes "well_formed h" and "p < next_ref h" and "c \<in> set (children (nodes h p))"
  shows "c < next_ref h \<and> parent (nodes h c) = Some p"
proof -
  have "p \<in> set [0..<next_ref h]" using assms(2) by simp
  with assms(1) have
    "list_all (\<lambda>c. c < next_ref h \<and> parent (nodes h c) = Some p) (children (nodes h p))"
    unfolding well_formed_def list_all_iff by blast
  with assms(3) show ?thesis unfolding list_all_iff by blast
qed

lemma well_formed_parent:
  assumes "well_formed h" and "c < next_ref h" and "parent (nodes h c) = Some p"
  shows "p < next_ref h \<and> c \<in> set (children (nodes h p))"
proof -
  have "c \<in> set [0..<next_ref h]" using assms(2) by simp
  with assms(1) have
    "case parent (nodes h c) of None \<Rightarrow> True
     | Some q \<Rightarrow> q < next_ref h \<and> c \<in> set (children (nodes h q))"
    unfolding well_formed_def list_all_iff by blast
  with assms(3) show ?thesis by simp
qed

lemma nth_parent_step:
  "nth_parent h j d = Some y \<Longrightarrow> parent (nodes h y) = Some x \<Longrightarrow> nth_parent h (Suc j) d = Some x"
proof (induction j arbitrary: d)
  case 0
  then show ?case by simp
next
  case (Suc j)
  from Suc.prems(1) obtain q where q: "parent (nodes h d) = Some q" "nth_parent h j q = Some y"
    by (auto split: option.splits)
  from Suc.IH [OF q(2) Suc.prems(2)] have "nth_parent h (Suc j) q = Some x" .
  then show ?case using q(1) by simp
qed

lemma descendants_of_reach:
  "well_formed h \<Longrightarrow> \<forall>x\<in>set xs. x < next_ref h \<Longrightarrow> descendants_of k h xs = Some ds \<Longrightarrow>
   d \<in> set ds \<Longrightarrow> \<exists>x\<in>set xs. \<exists>j. nth_parent h j d = Some x"
proof (induction k h xs arbitrary: ds rule: descendants_of.induct)
  case (1 k h)
  then show ?case by simp
next
  case (2 h x xs)
  then show ?case by simp
next
  case (3 k h x xs)
  from "3.prems"(3) obtain rest where rest:
    "descendants_of k h (children (nodes h x) @ xs) = Some rest" "ds = x # rest"
    by auto
  show ?case
  proof (cases "d = x")
    case True
    have "nth_parent h 0 d = Some x" using True by simp
    then show ?thesis by (intro bexI [of _ x] exI [of _ 0]) simp_all
  next
    case False
    then have din: "d \<in> set rest" using "3.prems"(4) rest by simp
    have xa: "x < next_ref h" using "3.prems"(2) by simp
    have alloc: "\<forall>y\<in>set (children (nodes h x) @ xs). y < next_ref h"
      using "3.prems"(2) well_formed_child [OF "3.prems"(1) xa] by auto
    from "3.IH" [OF "3.prems"(1) alloc rest(1) din] obtain y j where
      y: "y \<in> set (children (nodes h x) @ xs)" "nth_parent h j d = Some y" by blast
    show ?thesis
    proof (cases "y \<in> set xs")
      case True
      then show ?thesis using y(2) by (intro bexI [of _ y] exI [of _ j]) simp_all
    next
      case False
      then have "y \<in> set (children (nodes h x))" using y(1) by simp
      then have "parent (nodes h y) = Some x"
        using well_formed_child [OF "3.prems"(1) xa] by simp
      with y(2) have "nth_parent h (Suc j) d = Some x" by (rule nth_parent_step)
      then show ?thesis by (intro bexI [of _ x] exI [of _ "Suc j"]) simp_all
    qed
  qed
qed

lemma fold_union_namespaces:
  "fold (\<lambda>child acc. acc \<union> namespaces (nodes h child)) ds acc0
     = acc0 \<union> (\<Union>d\<in>set ds. namespaces (nodes h d))"
  by (induction ds arbitrary: acc0) auto

lemmas example_defs =
  mk_node_def path_A_def path_A_b_def path_A_b_c_def root_only_def fence_tree_def
  sibling_tree_def scenario_c_def collision_store_def namespace_store_def
  optional_visible_store_def optional_fuse_store_def

lemmas eval_defs =
  attach_path_def iter_prefixes_def iter_prefixes_root_first_def owns_linkprop_def
  is_ptr_path_def is_linkprop_path_def new_node_def upd_node_def attach_child_def
  set_parent_def remove_def remove_subtree_def wrap_path_node_def descendant_namespaces_def
  descendants_def path_descendants_def strict_descendants_def find_visible_def paths_equal_def
  strip_namespace_def parent_fence_def fence_def resolve_unfenced_def locate_existing_def
  find_descendant_and_ns_def find_unfenced_def find_child_def offending_node_def
  hoist_existing_def remove_descendants_def strip_declared_def
  paths_equal_to_shortest_ns_def replace_namespace_def tree_shape_def

section \<open>Direct children: \<^verbatim>\<open>attach_child\<close>\<close>

text \<open>
  Claim C3. The claim: when the parent already has a direct child with the node's path,
  \<^verbatim>\<open>attach_child\<close> raises the invalid-scope-configuration error carrying the offending
  and the pre-existing node. The code does not get that far: the \<^verbatim>\<open>raise\<close> statement
  builds the exception without the two nodes its constructor requires, so what leaves
  \<^verbatim>\<open>attach_child\<close> is a \<^verbatim>\<open>TypeError\<close> that carries no node. Here the root 0 has the
  child 1 with path \<open>A\<close>, and node 2 with path \<open>A\<close> is attached.
\<close>

theorem attach_child_collision_TypeError:
  "attach_child (collision_store None (Some path_A)) 0 2 = Inl TypeError"
  by (simp add: attach_child_def example_defs)

text \<open>
  Claim C4, amended. A node whose \<^verbatim>\<open>unique_id\<close> is set and equals that of a child of
  the parent is skipped: no error, the store unchanged, provided it carries no path or no
  child of the parent carries an equal path. The path check comes first in the code, so a
  path collision is not covered by the skip.
\<close>

theorem attach_child_same_unique_id:
  "unique_id (nodes h n) \<noteq> None \<Longrightarrow>
   list_ex (\<lambda>c. unique_id (nodes h c) = unique_id (nodes h n)) (children (nodes h P)) \<Longrightarrow>
   path_id (nodes h n) = None
     \<or> \<not> list_ex (\<lambda>c. path_id (nodes h c) = path_id (nodes h n)) (children (nodes h P)) \<Longrightarrow>
   attach_child h P n = Inr h"
  by (auto simp add: attach_child_def)

text \<open>The skip at work: node 2 shares the unique id 7 with the child 1 and carries
  another path.\<close>

theorem attach_child_same_unique_id_witness:
  "unique_id (nodes (collision_store (Some 7) (Some path_A_b)) 2) \<noteq> None
   \<and> list_ex (\<lambda>c. unique_id (nodes (collision_store (Some 7) (Some path_A_b)) c)
                   = unique_id (nodes (collision_store (Some 7) (Some path_A_b)) 2))
        (children (nodes (collision_store (Some 7) (Some path_A_b)) 0))
   \<and> \<not> list_ex (\<lambda>c. path_id (nodes (collision_store (Some 7) (Some path_A_b)) c)
                   = path_id (nodes (collision_store (Some 7) (Some path_A_b)) 2))
        (children (nodes (collision_store (Some 7) (Some path_A_b)) 0))
   \<and> attach_child (collision_store (Some 7) (Some path_A_b)) 0 2
       = Inr (collision_store (Some 7) (Some path_A_b))"
proof -
  have a: "unique_id (nodes (collision_store (Some 7) (Some path_A_b)) 2) \<noteq> None"
    by (simp add: example_defs)
  have b: "list_ex (\<lambda>c. unique_id (nodes (collision_store (Some 7) (Some path_A_b)) c)
                   = unique_id (nodes (collision_store (Some 7) (Some path_A_b)) 2))
        (children (nodes (collision_store (Some 7) (Some path_A_b)) 0))"
    by (simp add: example_defs)
  have c: "\<not> list_ex (\<lambda>c. path_id (nodes (collision_store (Some 7) (Some path_A_b)) c)
                   = path_id (nodes (collision_store (Some 7) (Some path_A_b)) 2))
        (children (nodes (collision_store (Some 7) (Some path_A_b)) 0))"
    by (simp add: example_defs)
  from attach_child_same_unique_id [OF a b disjI2 [OF c]] a b c show ?thesis by blast
qed

text \<open>The claim as stated fails when the paths collide too: node 2 shares both the
  unique id and the path \<open>A\<close> with the child 1, and the attach raises.\<close>

theorem attach_child_same_unique_id_counterexample:
  "unique_id (nodes (collision_store (Some 7) (Some path_A)) 2) \<noteq> None
   \<and> list_ex (\<lambda>c. unique_id (nodes (collision_store (Some 7) (Some path_A)) c)
                   = unique_id (nodes (collision_store (Some 7) (Some path_A)) 2))
        (children (nodes (collision_store (Some 7) (Some path_A)) 0))
   \<and> attach_child (collision_store (Some 7) (Some path_A)) 0 2 = Inl TypeError
   \<and> attach_child (collision_store (Some 7) (Some path_A)) 0 2
       \<noteq> Inr (collision_store (Some 7) (Some path_A))"
  by (simp add: attach_child_def example_defs)

section \<open>Namespaces of an incoming subtree\<close>

text \<open>
  Claim C5, amended. The set \<open>dns\<close> that \<^verbatim>\<open>attach_subtree\<close> strips from the incoming
  paths is the union of the namespaces declared by the incoming root (after the wrapping
  of a path node) and by all its strict descendants: \<^verbatim>\<open>descendant_namespaces\<close> iterates
  \<^verbatim>\<open>self.descendants\<close>, which starts with the node itself.
\<close>

theorem descendant_namespaces_include_root:
  "wrap_path_node h node0 = Inr (h1, node) \<Longrightarrow>
   descendant_namespaces k h1 node = Some dns \<Longrightarrow>
   attach_subtree (Suc k) h self node0
     = (case attach_descendants k h1 self node dns [node] of
          None \<Rightarrow> None
        | Some (Inl e) \<Rightarrow> Some (Inl e)
        | Some (Inr h2) \<Rightarrow> attach_remaining k h2 self node (children (nodes h2 node)))
   \<and> (\<exists>j sds. k = Suc j \<and> strict_descendants j h1 node = Some sds
        \<and> dns = namespaces (nodes h1 node) \<union> (\<Union>d\<in>set sds. namespaces (nodes h1 d)))"
  by (cases k) (auto simp: descendant_namespaces_def descendants_def strict_descendants_def
      fold_union_namespaces)

theorem descendant_namespaces_include_root_witness:
  "wrap_path_node namespace_store 0 = Inr (namespace_store, 0)
   \<and> descendant_namespaces 2 namespace_store 0 = Some {''x'', ''y''}
   \<and> (\<exists>j sds. (2::nat) = Suc j \<and> strict_descendants j namespace_store 0 = Some sds
        \<and> {''x'', ''y''} = namespaces (nodes namespace_store 0)
             \<union> (\<Union>d\<in>set sds. namespaces (nodes namespace_store d)))"
proof -
  have a: "wrap_path_node namespace_store 0 = Inr (namespace_store, 0)"
    by (simp add: wrap_path_node_def example_defs)
  have b: "descendant_namespaces 2 namespace_store 0 = Some {''x'', ''y''}"
    by (auto simp add: descendant_namespaces_def descendants_def example_defs numeral_2_eq_2)
  from descendant_namespaces_include_root [OF a b] a b show ?thesis by blast
qed

text \<open>The claim as stated leaves the root's own namespaces out; here the root declares
  \<open>x\<close>, its only descendant declares \<open>y\<close>, and \<open>dns\<close> holds both.\<close>

theorem descendant_namespaces_counterexample:
  "wrap_path_node namespace_store 0 = Inr (namespace_store, 0)
   \<and> descendant_namespaces 2 namespace_store 0 = Some {''x'', ''y''}
   \<and> strict_descendants 1 namespace_store 0 = Some [1]
   \<and> (\<Union>d\<in>set [1]. namespaces (nodes namespace_store d)) = {''y''}
   \<and> {''x'', ''y''} \<noteq> {''y''}"
  by (auto simp add: wrap_path_node_def descendant_namespaces_def descendants_def
      strict_descendants_def example_defs numeral_2_eq_2)

section \<open>Visibility\<close>

lemma well_formed_fence_tree: "well_formed fence_tree"
  by (simp add: well_formed_def example_defs upt_rec)

lemma descendants_of_closed:
  "descendants_of k h xs = Some ds \<Longrightarrow>
     set xs \<subseteq> set ds \<and> (\<forall>x\<in>set ds. set (children (nodes h x)) \<subseteq> set ds)"
proof (induction k h xs arbitrary: ds rule: descendants_of.induct)
  case (1 k h)
  then show ?case by simp
next
  case (2 h x xs)
  then show ?case by simp
next
  case (3 k h x xs)
  from "3.prems" obtain rest where rest:
    "descendants_of k h (children (nodes h x) @ xs) = Some rest" "ds = x # rest"
    by auto
  from "3.IH" [OF rest(1)] show ?case using rest(2) by auto
qed

lemma descendants_of_origin:
  "descendants_of k h xs = Some ds \<Longrightarrow> y \<in> set ds \<Longrightarrow>
     y \<in> set xs \<or> (\<exists>x\<in>set ds. y \<in> set (children (nodes h x)))"
proof (induction k h xs arbitrary: ds rule: descendants_of.induct)
  case (1 k h)
  then show ?case by simp
next
  case (2 h x xs)
  then show ?case by simp
next
  case (3 k h x xs)
  from "3.prems"(1) obtain rest where rest:
    "descendants_of k h (children (nodes h x) @ xs) = Some rest" "ds = x # rest"
    by auto
  show ?case
  proof (cases "y = x")
    case True
    then show ?thesis by simp
  next
    case False
    then have "y \<in> set rest" using "3.prems"(2) rest(2) by simp
    from "3.IH" [OF rest(1) this] show ?thesis using rest(2) by auto
  qed
qed

lemma descendants_of_allocated:
  "well_formed h \<Longrightarrow> \<forall>x\<in>set xs. x < next_ref h \<Longrightarrow> descendants_of k h xs = Some ds \<Longrightarrow>
     \<forall>d\<in>set ds. d < next_ref h"
proof (induction k h xs arbitrary: ds rule: descendants_of.induct)
  case (1 k h)
  then show ?case by simp
next
  case (2 h x xs)
  then show ?case by simp
next
  case (3 k h x xs)
  from "3.prems"(3) obtain rest where rest:
    "descendants_of k h (children (nodes h x) @ xs) = Some rest" "ds = x # rest"
    by auto
  have xa: "x < next_ref h" using "3.prems"(2) by simp
  have alloc: "\<forall>y\<in>set (children (nodes h x) @ xs). y < next_ref h"
    using "3.prems"(2) well_formed_child [OF "3.prems"(1) xa] by auto
  from "3.IH" [OF "3.prems"(1) alloc rest(1)] show ?case using rest(2) xa by simp
qed

lemma nth_parent_allocated:
  "well_formed h \<Longrightarrow> s < next_ref h \<Longrightarrow> nth_parent h j s = Some a \<Longrightarrow> a < next_ref h"
proof (induction j arbitrary: s)
  case 0
  then show ?case by simp
next
  case (Suc j)
  from Suc.prems(3) obtain q where q: "parent (nodes h s) = Some q" "nth_parent h j q = Some a"
    by (auto split: option.splits)
  from well_formed_parent [OF Suc.prems(1,2) q(1)] have "q < next_ref h" by simp
  from Suc.IH [OF Suc.prems(1) this q(2)] show ?case .
qed

lemma nth_parent_inside:
  assumes wf: "well_formed h"
    and closed: "\<forall>x\<in>S. set (children (nodes h x)) \<subseteq> S"
  shows "s < next_ref h \<Longrightarrow> nth_parent h j s = Some a \<Longrightarrow> a \<in> S \<Longrightarrow> s \<in> S"
proof (induction j arbitrary: s)
  case 0
  then show ?case by simp
next
  case (Suc j)
  from Suc.prems(2) obtain q where q: "parent (nodes h s) = Some q" "nth_parent h j q = Some a"
    by (auto split: option.splits)
  from well_formed_parent [OF wf Suc.prems(1) q(1)]
  have qa: "q < next_ref h" and sq: "s \<in> set (children (nodes h q))" by simp_all
  from Suc.IH [OF qa q(2) Suc.prems(3)] have "q \<in> S" .
  with closed sq show ?case by blast
qed

lemma ancestors_from_nth_parent:
  "ancestors_from k h (Some s) = Some as \<Longrightarrow> a \<in> set as \<Longrightarrow> \<exists>j. nth_parent h j s = Some a"
proof (induction k arbitrary: s as)
  case 0
  then show ?case by simp
next
  case (Suc k)
  from Suc.prems(1) obtain rest where rest:
    "ancestors_from k h (parent (nodes h s)) = Some rest" "as = s # rest"
    by auto
  show ?case
  proof (cases "a = s")
    case True
    then have "nth_parent h 0 s = Some a" by simp
    then show ?thesis by blast
  next
    case False
    then have ar: "a \<in> set rest" using Suc.prems(2) rest(2) by simp
    then obtain q where q: "parent (nodes h s) = Some q"
      using rest(1) by (cases "parent (nodes h s)") auto
    from Suc.IH [OF rest(1) [unfolded q] ar] obtain j where "nth_parent h j q = Some a" by blast
    then have "nth_parent h (Suc j) s = Some a" using q by simp
    then show ?thesis by blast
  qed
qed

lemma find_visible_from_none:
  "ancestors_from k h r = Some as \<Longrightarrow>
   \<forall>a\<in>set as. (\<forall>nss. \<not> paths_equal (path_id (nodes h a)) (Some p) nss)
       \<and> (\<forall>c\<in>set (children (nodes h a)). \<forall>nss. \<not> paths_equal (path_id (nodes h c)) (Some p) nss) \<Longrightarrow>
   find_visible_from k h r ans nss p = Some None"
proof (induction k h r ans nss p arbitrary: as rule: find_visible_from.induct)
  case (1 k h ans nss p)
  then show ?case by simp
next
  case (2 h n ans nss p)
  then show ?case by simp
next
  case (3 k h n ans nss p)
  from "3.prems"(1) obtain rest where rest:
    "ancestors_from k h (parent (nodes h n)) = Some rest" "as = n # rest"
    by auto
  have self: "\<not> paths_equal (path_id (nodes h n)) (Some p) nss"
    using "3.prems"(2) rest(2) by simp
  have kids: "find (\<lambda>c. paths_equal (path_id (nodes h c)) (Some p) nss) (children (nodes h n)) = None"
    using "3.prems"(2) rest(2) by (simp add: find_None_iff)
  have up: "\<forall>a\<in>set rest. (\<forall>nss. \<not> paths_equal (path_id (nodes h a)) (Some p) nss)
       \<and> (\<forall>c\<in>set (children (nodes h a)). \<forall>nss. \<not> paths_equal (path_id (nodes h c)) (Some p) nss)"
    using "3.prems"(2) rest(2) by simp
  from "3.IH" [OF self kids rest(1) up] show ?case using self kids by simp
qed

lemma absent_outside_no_match:
  assumes "absent_outside h inside p" and "m < next_ref h" and "m \<notin> set inside"
  shows "\<not> paths_equal (path_id (nodes h m)) (Some p) nss"
proof -
  have "m \<in> set [0..<next_ref h]" using assms(2) by simp
  with assms(1) have "m \<in> set inside
     \<or> (case path_id (nodes h m) of None \<Rightarrow> True | Some q \<Rightarrow> steps q \<noteq> steps p)"
    unfolding absent_outside_def list_all_iff by blast
  with assms(3) have c: "case path_id (nodes h m) of None \<Rightarrow> True | Some q \<Rightarrow> steps q \<noteq> steps p"
    by simp
  show ?thesis
  proof (cases "path_id (nodes h m)")
    case None
    then show ?thesis by (simp add: paths_equal_def)
  next
    case (Some q)
    with c have "steps q \<noteq> steps p" by simp
    then show ?thesis using Some paths_equal_steps by auto
  qed
qed

lemma invisible_from_outside:
  assumes wf: "well_formed h" and Fa: "F < next_ref h"
    and sd: "strict_descendants k1 h F = Some sfs"
    and absent: "absent_outside h sfs pd"
    and sa: "s < next_ref h" and sout: "s \<notin> set (F # sfs)"
    and anc: "ancestors ks h s = Some as"
  shows "find_visible ks h s pd = Some None"
proof -
  have full: "descendants_of (Suc k1) h [F] = Some (F # sfs)"
    using sd by (simp add: strict_descendants_def)
  from descendants_of_closed [OF full]
  have closed: "\<forall>x\<in>set (F # sfs). set (children (nodes h x)) \<subseteq> set (F # sfs)" by blast
  have kidsF: "\<forall>x\<in>set (children (nodes h F)). x < next_ref h"
    using well_formed_child [OF wf Fa] by blast
  from descendants_of_allocated [OF wf kidsF sd [unfolded strict_descendants_def]]
  have sfs_alloc: "\<forall>d\<in>set sfs. d < next_ref h" .
  have visited: "(\<forall>nss. \<not> paths_equal (path_id (nodes h a)) (Some pd) nss)
       \<and> (\<forall>c\<in>set (children (nodes h a)). \<forall>nss. \<not> paths_equal (path_id (nodes h c)) (Some pd) nss)"
    if a: "a \<in> set as" for a
  proof -
    from ancestors_from_nth_parent [OF anc [unfolded ancestors_def] a]
    obtain j where j: "nth_parent h j s = Some a" by blast
    have aa: "a < next_ref h" using nth_parent_allocated [OF wf sa j] .
    have aout: "a \<notin> set (F # sfs)"
      using nth_parent_inside [OF wf closed sa j] sout by blast
    have "\<not> paths_equal (path_id (nodes h a)) (Some pd) nss" for nss
      using absent_outside_no_match [OF absent aa] aout by simp
    moreover have "\<not> paths_equal (path_id (nodes h c)) (Some pd) nss"
      if c: "c \<in> set (children (nodes h a))" for c nss
    proof -
      from well_formed_child [OF wf aa c]
      have ca: "c < next_ref h" and cp: "parent (nodes h c) = Some a" by simp_all
      have "c \<notin> set sfs"
      proof
        assume cin: "c \<in> set sfs"
        from descendants_of_origin [OF sd [unfolded strict_descendants_def] cin]
        consider "c \<in> set (children (nodes h F))"
          | x where "x \<in> set sfs" "c \<in> set (children (nodes h x))" by blast
        then show False
        proof cases
          case 1
          from well_formed_child [OF wf Fa 1] cp have "a = F" by simp
          with aout show False by simp
        next
          case 2
          from sfs_alloc 2(1) have "x < next_ref h" by blast
          from well_formed_child [OF wf this 2(2)] cp have "a = x" by simp
          with aout 2(1) show False by simp
        qed
      qed
      with absent_outside_no_match [OF absent ca] show ?thesis by blast
    qed
    ultimately show ?thesis by blast
  qed
  from find_visible_from_none [OF anc [unfolded ancestors_def]] visited
  show ?thesis unfolding find_visible_def by blast
qed

lemma visible_at_parent:
  assumes "d \<in> set (children (nodes h dp))" and "path_id (nodes h d) = Some pd"
  shows "\<exists>m. find_visible (Suc 0) h dp pd = Some (Some m)"
proof (cases "paths_equal (path_id (nodes h dp)) (Some pd) {}")
  case True
  then show ?thesis by (simp add: find_visible_def)
next
  case False
  have "paths_equal (path_id (nodes h d)) (Some pd) {}"
    using assms(2) by (simp add: paths_equal_refl)
  with assms(1) have
    "find (\<lambda>c. paths_equal (path_id (nodes h c)) (Some pd) {}) (children (nodes h dp)) \<noteq> None"
    by (auto simp: find_None_iff)
  then obtain c where
    "find (\<lambda>c. paths_equal (path_id (nodes h c)) (Some pd) {}) (children (nodes h dp)) = Some c"
    by blast
  with False show ?thesis by (simp add: find_visible_def)
qed

lemma visible_from_descendant:
  assumes "well_formed h" and "n < next_ref h"
    and "descendants k1 h n = Some ds" and "d \<in> set ds"
    and "find_visible k h n p = Some (Some m)"
  shows "\<exists>k' m'. find_visible k' h d p = Some (Some m')"
proof -
  from descendants_of_reach [OF assms(1) _ assms(3) [unfolded descendants_def] assms(4)] assms(2)
  obtain j where "nth_parent h j d = Some n" by auto
  from find_visible_from_below [OF this assms(5) [unfolded find_visible_def], of "{}" "{}"]
  show ?thesis unfolding find_visible_def by blast
qed

text \<open>
  Claim C6, amended. Let \<open>d\<close> be a path node strictly below the fence \<open>F\<close> in a well-formed
  store, and let no node outside the strict descendants of \<open>F\<close> carry a path with the steps
  of \<open>d\<close>'s path. Then \<^verbatim>\<open>find_visible\<close> with \<open>d\<close>'s path returns \<^verbatim>\<open>None\<close> from every node
  outside the subtree of \<open>F\<close>, and returns a node from the parent of \<open>d\<close> and from every node
  below that parent.
\<close>

theorem fence_containment:
  assumes "well_formed h" and "F < next_ref h" and "fenced (nodes h F)"
    and "strict_descendants k1 h F = Some sfs"
    and "d \<in> set sfs" and "path_id (nodes h d) = Some pd"
    and "absent_outside h sfs pd"
  shows "(\<forall>s ks as. s < next_ref h \<and> s \<notin> set (F # sfs) \<and> ancestors ks h s = Some as
            \<longrightarrow> find_visible ks h s pd = Some None)
       \<and> (\<forall>dp x k2 xs. dp < next_ref h \<and> d \<in> set (children (nodes h dp))
              \<and> descendants k2 h dp = Some xs \<and> x \<in> set xs
            \<longrightarrow> (\<exists>k' m. find_visible k' h x pd = Some (Some m)))"
proof (intro conjI allI impI)
  fix s ks as
  assume "s < next_ref h \<and> s \<notin> set (F # sfs) \<and> ancestors ks h s = Some as"
  then show "find_visible ks h s pd = Some None"
    using invisible_from_outside [OF assms(1,2,4,7)] by blast
next
  fix dp x k2 xs
  assume a: "dp < next_ref h \<and> d \<in> set (children (nodes h dp))
              \<and> descendants k2 h dp = Some xs \<and> x \<in> set xs"
  from visible_at_parent [of d h dp pd] a assms(6)
  obtain m where "find_visible (Suc 0) h dp pd = Some (Some m)" by blast
  from visible_from_descendant [OF assms(1) _ _ _ this] a
  show "\<exists>k' m. find_visible k' h x pd = Some (Some m)" by blast
qed

theorem fence_containment_witness:
  "well_formed fence_tree \<and> 1 < next_ref fence_tree \<and> fenced (nodes fence_tree 1)
   \<and> strict_descendants 2 fence_tree 1 = Some [2, 3]
   \<and> 3 \<in> set [2, 3 :: nat] \<and> path_id (nodes fence_tree 3) = Some path_A_b
   \<and> absent_outside fence_tree [2, 3] path_A_b
   \<and> 4 < next_ref fence_tree \<and> 4 \<notin> set [1, 2, 3 :: nat]
   \<and> ancestors 2 fence_tree 4 = Some [4, 0]
   \<and> find_visible 2 fence_tree 4 path_A_b = Some None
   \<and> 2 < next_ref fence_tree \<and> 3 \<in> set (children (nodes fence_tree 2))
   \<and> descendants 2 fence_tree 2 = Some [2, 3]
   \<and> (\<exists>k' m. find_visible k' fence_tree 3 path_A_b = Some (Some m))"
proof -
  have a: "1 < next_ref fence_tree" "fenced (nodes fence_tree 1)" by (simp_all add: example_defs)
  have b: "strict_descendants 2 fence_tree 1 = Some [2, 3]"
    by (simp add: eval_defs example_defs numeral_eq_Suc)
  have c: "3 \<in> set [2, 3 :: nat]" "path_id (nodes fence_tree 3) = Some path_A_b"
    by (simp_all add: example_defs)
  have d: "absent_outside fence_tree [2, 3] path_A_b"
    by (simp add: absent_outside_def example_defs upt_rec)
  have e: "4 < next_ref fence_tree" "4 \<notin> set [1, 2, 3 :: nat]" by (simp_all add: example_defs)
  have f: "ancestors 2 fence_tree 4 = Some [4, 0]"
    by (simp add: ancestors_def example_defs numeral_eq_Suc)
  have g: "2 < next_ref fence_tree" "3 \<in> set (children (nodes fence_tree 2))"
    by (simp_all add: example_defs)
  have i: "descendants 2 fence_tree 2 = Some [2, 3]"
    by (simp add: eval_defs example_defs numeral_eq_Suc)
  note T = fence_containment [OF well_formed_fence_tree a b c d]
  from T e f have N: "find_visible 2 fence_tree 4 path_A_b = Some None" by blast
  from T g i c(1) have V: "\<exists>k' m. find_visible k' fence_tree 3 path_A_b = Some (Some m)" by blast
  from well_formed_fence_tree a b c d e f N g i V show ?thesis by blast
qed

text \<open>The claim as stated fails when a node beside the fence carries the same path:
  the fence 1 holds \<open>A\<close> (2), its sibling 3 is labelled \<open>A\<close> too, and the search from the
  sibling finds the sibling.\<close>

theorem fence_containment_counterexample:
  "fenced (nodes sibling_tree 1)
   \<and> strict_descendants 1 sibling_tree 1 = Some [2]
   \<and> path_id (nodes sibling_tree 2) = Some path_A
   \<and> children (nodes sibling_tree 0) = [1, 3]
   \<and> find_visible 2 sibling_tree 3 path_A = Some (Some 3)"
  by (simp add: eval_defs example_defs numeral_eq_Suc)

text \<open>
  Claim C7. In a well-formed store, when \<^verbatim>\<open>find_visible\<close> finds the path from a node,
  it finds it (returns and gives a node) from every descendant of that node.
\<close>

theorem visibility_monotone:
  assumes "well_formed h" and "n < next_ref h"
    and "descendants k1 h n = Some ds" and "d \<in> set ds"
    and "find_visible k h n p = Some (Some m)"
  shows "\<exists>k' m'. find_visible k' h d p = Some (Some m')"
  using assms by (rule visible_from_descendant)

theorem visibility_monotone_witness:
  "well_formed fence_tree \<and> 1 < next_ref fence_tree
   \<and> descendants 3 fence_tree 1 = Some [1, 2, 3] \<and> 3 \<in> set [1, 2, 3 :: nat]
   \<and> find_visible 1 fence_tree 1 path_A = Some (Some 2)
   \<and> (\<exists>k' m'. find_visible k' fence_tree 3 path_A = Some (Some m'))"
proof -
  have a: "1 < next_ref fence_tree" by (simp add: example_defs)
  have b: "descendants 3 fence_tree 1 = Some [1, 2, 3]"
    by (simp add: descendants_def example_defs numeral_3_eq_3)
  have c: "3 \<in> set [1, 2, 3 :: nat]" by simp
  have d: "find_visible 1 fence_tree 1 path_A = Some (Some 2)"
    by (simp add: find_visible_def paths_equal_def example_defs)
  from visibility_monotone [OF well_formed_fence_tree a b c d] well_formed_fence_tree a b c d
  show ?thesis by blast
qed

text \<open>
  Claim C10. When \<^verbatim>\<open>find_visible\<close> returns \<^verbatim>\<open>None\<close> for a path, \<^verbatim>\<open>is_optional\<close> is
  false and \<^verbatim>\<open>mark_as_optional\<close> returns without an error and leaves the whole store as
  it was.
\<close>

theorem invisible_path_not_optional:
  "find_visible k h n p = Some None \<Longrightarrow>
     is_optional k h n p = Some False \<and> mark_as_optional k h n p = Some h"
  by (simp add: is_optional_def mark_as_optional_def)

theorem invisible_path_not_optional_witness:
  "find_visible 1 (root_only (mk_node None True [] None)) 0 path_A = Some None
   \<and> is_optional 1 (root_only (mk_node None True [] None)) 0 path_A = Some False
   \<and> mark_as_optional 1 (root_only (mk_node None True [] None)) 0 path_A
       = Some (root_only (mk_node None True [] None))"
proof -
  have v: "find_visible 1 (root_only (mk_node None True [] None)) 0 path_A = Some None"
    by (simp add: find_visible_def paths_equal_def example_defs)
  from invisible_path_not_optional [OF v] v show ?thesis by simp
qed

section \<open>Attaching paths\<close>

lemma fuel_8: "8 \<le> k \<Longrightarrow> \<exists>j. k = Suc (Suc (Suc (Suc (Suc (Suc (Suc (Suc j)))))))"
  by (rule exI [of _ "k - 8"]) simp

text \<open>
  Claim C1, amended. On a root node without path and without children, whatever its flags,
  namespaces and unique id, \<^verbatim>\<open>attach_path\<close> with \<open>A.b\<close> and then with \<open>A.b.c\<close> returns
  without raising, given fuel 8 or more. The node \<open>A.b.c\<close> does not end up as a child of
  the node \<open>A.b\<close>. When the prefixes come from the full path down to the root, so that the
  chain is built root first, the tree under the root is \<open>A\<close> with the child \<open>A.b\<close>: the
  second call finds \<open>A\<close> visible, drops it from the incoming chain, and what hangs below
  it has no fence inside the chain any more and is left out. When the prefixes come in the
  opposite order, the tree is \<open>A.b\<close> with the child \<open>A\<close>, and \<open>A.b.c\<close> beside it as a direct
  child of the root.
\<close>

theorem scenario_a_shape:
  assumes "8 \<le> k"
  shows "map_option (map_sum id (\<lambda>h. tree_shape k h 0))
      (attach_paths iter_prefixes k
         (root_only (r\<lparr>path_id := None, children := [], parent := None\<rparr>)) 0
         [path_A_b, path_A_b_c])
     = Some (Inr (Some [(0, None, [2]), (2, Some path_A, [3]), (3, Some path_A_b, [])]))
   \<and> map_option (map_sum id (\<lambda>h. tree_shape k h 0))
      (attach_paths iter_prefixes_root_first k
         (root_only (r\<lparr>path_id := None, children := [], parent := None\<rparr>)) 0
         [path_A_b, path_A_b_c])
     = Some (Inr (Some [(0, None, [2, 5]), (2, Some path_A_b, [3]), (3, Some path_A, []),
          (5, Some path_A_b_c, [])]))"
proof -
  from fuel_8 [OF assms] obtain j where k: "k = Suc (Suc (Suc (Suc (Suc (Suc (Suc (Suc j)))))))"
    by blast
  have a: "map_option (map_sum id (\<lambda>h. tree_shape k h 0))
      (attach_paths iter_prefixes k
         (root_only (r\<lparr>path_id := None, children := [], parent := None\<rparr>)) 0
         [path_A_b, path_A_b_c])
     = Some (Inr (Some [(0, None, [2]), (2, Some path_A, [3]), (3, Some path_A_b, [])]))"
    unfolding k by (simp add: eval_defs example_defs)
  have b: "map_option (map_sum id (\<lambda>h. tree_shape k h 0))
      (attach_paths iter_prefixes_root_first k
         (root_only (r\<lparr>path_id := None, children := [], parent := None\<rparr>)) 0
         [path_A_b, path_A_b_c])
     = Some (Inr (Some [(0, None, [2, 5]), (2, Some path_A_b, [3]), (3, Some path_A, []),
          (5, Some path_A_b_c, [])]))"
    unfolding k by (simp add: eval_defs example_defs)
  from a b show ?thesis by (rule conjI)
qed

theorem scenario_a_shape_witness:
  "(8::nat) \<le> 8
   \<and> map_option (map_sum id (\<lambda>h. tree_shape 8 h 0))
      (attach_paths iter_prefixes 8
         (root_only ((mk_node None True [] None)\<lparr>path_id := None, children := [], parent := None\<rparr>)) 0
         [path_A_b, path_A_b_c])
     = Some (Inr (Some [(0, None, [2]), (2, Some path_A, [3]), (3, Some path_A_b, [])]))
   \<and> map_option (map_sum id (\<lambda>h. tree_shape 8 h 0))
      (attach_paths iter_prefixes_root_first 8
         (root_only ((mk_node None True [] None)\<lparr>path_id := None, children := [], parent := None\<rparr>)) 0
         [path_A_b, path_A_b_c])
     = Some (Inr (Some [(0, None, [2, 5]), (2, Some path_A_b, [3]), (3, Some path_A, []),
          (5, Some path_A_b_c, [])]))"
proof -
  have le: "(8::nat) \<le> 8" by simp
  from scenario_a_shape [OF le, of "mk_node None True [] None"] le show ?thesis by blast
qed

text \<open>The claim as stated: after both calls some node labelled \<open>A.b\<close> under the root has
  a child labelled \<open>A.b.c\<close>. It fails in either order of the prefixes.\<close>

theorem scenario_a_counterexample:
  "map_option (map_sum id (\<lambda>h. holds_nested 8 h 0 path_A_b path_A_b_c))
      (attach_paths iter_prefixes 8 (root_only (mk_node None True [] None)) 0
         [path_A_b, path_A_b_c])
     = Some (Inr (Some False))
   \<and> map_option (map_sum id (\<lambda>h. holds_nested 8 h 0 path_A_b path_A_b_c))
      (attach_paths iter_prefixes_root_first 8 (root_only (mk_node None True [] None)) 0
         [path_A_b, path_A_b_c])
     = Some (Inr (Some False))"
  by (simp add: eval_defs example_defs holds_nested_def numeral_eq_Suc)

section \<open>Ambiguous correlation\<close>

lemma find_child_in_branches_none:
  "find_child_in k h cs p b = Some None \<Longrightarrow> find_child_in k h cs p False = Some None"
  by (induction k h cs p b rule: find_child_in.induct)
     (auto split: if_splits option.splits)

text \<open>
  Claim C2. In the loop of \<^verbatim>\<open>attach_subtree\<close>, take an incoming path node that is not
  visible from \<^verbatim>\<open>self\<close>, whose nearest fence in the incoming subtree is the incoming root,
  that has no match among the descendants of \<^verbatim>\<open>self\<close>, and whose match from
  \<^verbatim>\<open>find_unfenced\<close> was reached past a node marked \<^verbatim>\<open>unnest_fence\<close>. When the
  fence of that match has no child with the path, directly or through branches, the merge
  raises \<open>InvalidScopeConfiguration\<close> with the offending node (the parent of the incoming
  node when that is a path node, else the incoming node) and the existing match.
\<close>

theorem ambiguous_correlation_raises:
  assumes "path_id (nodes h d) = Some dp"
    and "find_visible k h self (strip_namespace dp dns) = Some None"
    and "parent_fence k h d = Some (Some node)"
    and "find_descendant_and_ns k h self (strip_namespace dp dns) = Some None"
    and "find_unfenced k h self (strip_namespace dp dns) = Some (Some existing, True)"
    and "parent_fence k h existing = Some (Some pf)"
    and "find_child k h pf (strip_namespace dp dns) True = Some None"
  shows "\<exists>off. offending_node h d = Inr off
           \<and> attach_descendants (Suc k) h self node dns (d # rest)
               = Some (Inl (InvalidScopeConfiguration off existing))"
proof -
  from assms(3) obtain q where q: "parent (nodes h d) = Some q"
    by (cases "parent (nodes h d)"; cases k) (auto simp: parent_fence_def)
  then obtain off where off: "offending_node h d = Inr off"
    by (simp add: offending_node_def)
  have direct: "find_child k h pf (strip_namespace dp dns) False = Some None"
    using assms(7) find_child_in_branches_none by (simp add: find_child_def)
  have loc: "locate_existing k h self (strip_namespace dp dns)
               = Some (Some existing, {}, True, Some pf)"
    using assms(4,5,6) by (simp add: locate_existing_def)
  have "resolve_unfenced k h self d (strip_namespace dp dns)
          = Some (Inl (InvalidScopeConfiguration off existing))"
    using loc direct assms(7) off by (simp add: resolve_unfenced_def)
  then have "attach_descendants (Suc k) h self node dns (d # rest)
               = Some (Inl (InvalidScopeConfiguration off existing))"
    using assms(1,2,3) by simp
  with off show ?thesis by blast
qed

text \<open>Scenario C, the loop step and the whole call.\<close>

theorem ambiguous_correlation_raises_witness:
  "path_id (nodes scenario_c 5) = Some path_A_b
   \<and> find_visible 5 scenario_c 3 (strip_namespace path_A_b {}) = Some None
   \<and> parent_fence 5 scenario_c 5 = Some (Some 4)
   \<and> find_descendant_and_ns 5 scenario_c 3 (strip_namespace path_A_b {}) = Some None
   \<and> find_unfenced 5 scenario_c 3 (strip_namespace path_A_b {}) = Some (Some 2, True)
   \<and> parent_fence 5 scenario_c 2 = Some (Some 0)
   \<and> find_child 5 scenario_c 0 (strip_namespace path_A_b {}) True = Some None
   \<and> (\<exists>off. offending_node scenario_c 5 = Inr off
         \<and> attach_descendants (Suc 5) scenario_c 3 4 {} [5]
             = Some (Inl (InvalidScopeConfiguration off 2)))
   \<and> attach_subtree 8 scenario_c 3 4 = Some (Inl (InvalidScopeConfiguration 5 2))"
proof -
  have a: "path_id (nodes scenario_c 5) = Some path_A_b" by (simp add: example_defs)
  have b: "find_visible 5 scenario_c 3 (strip_namespace path_A_b {}) = Some None"
    by (simp add: eval_defs example_defs numeral_eq_Suc)
  have c: "parent_fence 5 scenario_c 5 = Some (Some 4)"
    by (simp add: eval_defs example_defs numeral_eq_Suc)
  have d: "find_descendant_and_ns 5 scenario_c 3 (strip_namespace path_A_b {}) = Some None"
    by (simp add: eval_defs example_defs numeral_eq_Suc)
  have e: "find_unfenced 5 scenario_c 3 (strip_namespace path_A_b {}) = Some (Some 2, True)"
    by (simp add: eval_defs example_defs numeral_eq_Suc)
  have f: "parent_fence 5 scenario_c 2 = Some (Some 0)"
    by (simp add: eval_defs example_defs numeral_eq_Suc)
  have g: "find_child 5 scenario_c 0 (strip_namespace path_A_b {}) True = Some None"
    by (simp add: eval_defs example_defs numeral_eq_Suc)
  have full: "attach_subtree 8 scenario_c 3 4 = Some (Inl (InvalidScopeConfiguration 5 2))"
    by (simp add: eval_defs example_defs numeral_eq_Suc)
  from ambiguous_correlation_raises [where rest = "[]", OF a b c d e f g] a b c d e f g full
  show ?thesis by blast
qed

section \<open>Optional flags across a merge\<close>

lemma kept_refl: "optional_kept h h"
  by (simp add: optional_kept_def)

lemma kept_trans: "optional_kept a b \<Longrightarrow> optional_kept b c \<Longrightarrow> optional_kept a c"
  unfolding optional_kept_def by (meson le_trans less_le_trans)

lemma kept_upd:
  "(\<And>n. optional n \<Longrightarrow> optional (f n)) \<Longrightarrow> optional_kept h (upd_node h r f)"
  by (simp add: optional_kept_def upd_node_def)

lemma kept_new_node: "new_node h p f u = (h', r) \<Longrightarrow> optional_kept h h'"
  by (auto simp: optional_kept_def new_node_def)

lemma set_parent_fields:
  "set_parent h x p = Inr h' \<Longrightarrow>
     next_ref h' = next_ref h \<and> optional (nodes h' r) = optional (nodes h r)
     \<and> path_id (nodes h' r) = path_id (nodes h r)"
  by (auto simp: set_parent_def upd_node_def split: if_splits option.splits sum.splits)

lemma remove_fields:
  "remove h x = Inr h' \<Longrightarrow>
     next_ref h' = next_ref h \<and> optional (nodes h' r) = optional (nodes h r)
     \<and> path_id (nodes h' r) = path_id (nodes h r)"
  by (auto simp: remove_def remove_subtree_def dest: set_parent_fields
      split: if_splits option.splits)

lemma kept_set_parent: "set_parent h x p = Inr h' \<Longrightarrow> optional_kept h h'"
  using set_parent_fields [of h x p h'] by (simp add: optional_kept_def)

lemma kept_attach_child: "attach_child h s n = Inr h' \<Longrightarrow> optional_kept h h'"
  by (auto simp: attach_child_def kept_refl kept_set_parent split: if_splits)

lemma kept_remove: "remove h x = Inr h' \<Longrightarrow> optional_kept h h'"
  using remove_fields [of h x h'] by (simp add: optional_kept_def)

lemma kept_remove_all: "remove_all h xs = Inr h' \<Longrightarrow> optional_kept h h'"
proof (induction xs arbitrary: h)
  case Nil
  then show ?case by (simp add: kept_refl)
next
  case (Cons x xs)
  from Cons.prems obtain h1 where h1: "remove h x = Inr h1" "remove_all h1 xs = Inr h'"
    by (auto split: sum.splits)
  from kept_remove [OF h1(1)] Cons.IH [OF h1(2)] show ?case by (rule kept_trans)
qed

lemma kept_remove_descendants:
  "remove_descendants k h s p = Some (Inr h') \<Longrightarrow> optional_kept h h'"
  by (auto simp: remove_descendants_def dest: kept_remove_all)

lemma kept_attach_all: "attach_all h s cs = Inr h' \<Longrightarrow> optional_kept h h'"
proof (induction cs arbitrary: h)
  case Nil
  then show ?case by (simp add: kept_refl)
next
  case (Cons c cs)
  from Cons.prems obtain h1 where h1: "attach_child h s c = Inr h1" "attach_all h1 s cs = Inr h'"
    by (auto split: sum.splits)
  from kept_attach_child [OF h1(1)] Cons.IH [OF h1(2)] show ?case by (rule kept_trans)
qed

lemma kept_wrap: "wrap_path_node h n = Inr (h', w) \<Longrightarrow> optional_kept h h'"
proof (cases "path_id (nodes h n) \<noteq> None")
  case False
  assume "wrap_path_node h n = Inr (h', w)"
  with False show ?thesis by (simp add: wrap_path_node_def kept_refl)
next
  case True
  assume a: "wrap_path_node h n = Inr (h', w)"
  obtain h1 w1 where nn: "new_node h None True None = (h1, w1)" by (cases "new_node h None True None")
  with a True have "attach_child h1 w1 n = Inr h'"
    by (auto simp: wrap_path_node_def split: sum.splits)
  from kept_new_node [OF nn] kept_attach_child [OF this] show ?thesis by (rule kept_trans)
qed

lemma kept_hoist:
  "hoist_existing k h pf ex ens p = Some (Inr h') \<Longrightarrow> optional_kept h h'"
proof -
  assume a: "hoist_existing k h pf ex ens p = Some (Inr h')"
  then obtain h1 ep where h1: "remove_descendants k h pf p = Some (Inr h1)"
    "path_id (nodes h1 ex) = Some ep"
    "attach_child (upd_node h1 ex (\<lambda>n. n\<lparr>path_id := Some (strip_namespace ep ens)\<rparr>)) pf ex = Inr h'"
    by (auto simp: hoist_existing_def split: option.splits sum.splits)
  have "optional_kept h1 (upd_node h1 ex (\<lambda>n. n\<lparr>path_id := Some (strip_namespace ep ens)\<rparr>))"
    by (rule kept_upd) simp
  from kept_trans [OF kept_remove_descendants [OF h1(1)] kept_trans [OF this kept_attach_child [OF h1(3)]]]
  show ?thesis .
qed

lemma kept_resolve:
  "resolve_unfenced k h s d p = Some (Inr (h', ex)) \<Longrightarrow> optional_kept h h'"
  by (auto simp: resolve_unfenced_def kept_refl dest: kept_hoist
      split: option.splits sum.splits if_splits prod.splits bool.splits)

lemma kept_strip_declared: "optional_kept h (strip_declared h node pds)"
proof -
  have "optional_kept h0 (fold (\<lambda>pd h1.
             (case path_id (nodes h1 pd) of
                None \<Rightarrow> h1
              | Some p \<Rightarrow>
                  (if namespace p \<noteq> {}
                   then upd_node h1 pd
                          (\<lambda>n. n\<lparr>path_id :=
                             Some (strip_namespace p (namespace p \<inter> namespaces (nodes h1 node)))\<rparr>)
                   else h1))) pds h)" if "optional_kept h0 h" for h0 h
    using that
  proof (induction pds arbitrary: h)
    case Nil
    then show ?case by simp
  next
    case (Cons pd pds)
    show ?case
      apply (simp only: fold_simps)
      apply (rule Cons.IH)
      apply (rule kept_trans [OF Cons.prems])
      apply (auto split: option.splits intro!: kept_upd simp: kept_refl)
      done
  qed
  from this [OF kept_refl] show ?thesis by (simp add: strip_declared_def)
qed

lemma kept_attach_remaining:
  "attach_remaining k h s node ds = Some (Inr h') \<Longrightarrow> optional_kept h h'"
proof (induction ds arbitrary: h)
  case Nil
  then show ?case by (simp add: kept_refl)
next
  case (Cons d ds)
  from Cons.prems obtain pds h1 where h1: "path_descendants k h d = Some pds"
    "attach_child (strip_declared h node pds) s d = Inr h1"
    "attach_remaining k h1 s node ds = Some (Inr h')"
    by (auto split: option.splits sum.splits)
  from kept_trans [OF kept_strip_declared kept_trans [OF kept_attach_child [OF h1(2)] Cons.IH [OF h1(3)]]]
  show ?case .
qed

lemma kept_set_optional:
  "optional_kept h (upd_node h v (\<lambda>n. n\<lparr>optional := True\<rparr>))"
  by (rule kept_upd) simp

lemma attach_descendants_kept_step:
  assumes IHd: "\<And>h ws h'. attach_descendants k h self node dns ws = Some (Inr h')
                  \<Longrightarrow> optional_kept h h'"
    and IHf: "\<And>h s n h'. fuse_subtree k h s n = Some (Inr h') \<Longrightarrow> optional_kept h h'"
    and run: "attach_descendants (Suc k) h self node dns (d # rest) = Some (Inr h')"
  shows "optional_kept h h'"
proof (cases "path_id (nodes h d)")
  case None
  with run show ?thesis by (auto dest: IHd)
next
  case (Some dp)
  note dp = this
  show ?thesis
  proof (cases "find_visible k h self (strip_namespace dp dns)")
    case None
    with run dp show ?thesis by simp
  next
    case (Some vo)
    note fv = this
    show ?thesis
    proof (cases vo)
      case (Some v)
      from run dp fv Some obtain h1 where h1: "remove h d = Inr h1"
        by (auto split: sum.splits)
      show ?thesis
      proof (cases "optional (nodes h1 d)")
        case True
        with run dp fv Some h1 have
          "attach_descendants k (upd_node h1 v (\<lambda>n. n\<lparr>optional := True\<rparr>)) self node dns
             (children (nodes (upd_node h1 v (\<lambda>n. n\<lparr>optional := True\<rparr>)) d) @ rest)
           = Some (Inr h')" by simp
        from kept_trans [OF kept_remove [OF h1] kept_trans [OF kept_set_optional IHd [OF this]]]
        show ?thesis .
      next
        case False
        with run dp fv Some h1 have
          "attach_descendants k h1 self node dns (children (nodes h1 d) @ rest) = Some (Inr h')"
          by simp
        from kept_trans [OF kept_remove [OF h1] IHd [OF this]] show ?thesis .
      qed
    next
      case None
      note inv = this
      show ?thesis
      proof (cases "parent_fence k h d")
        case None
        with run dp fv inv show ?thesis by simp
      next
        case (Some pf)
        show ?thesis
        proof (cases "pf = Some node")
          case False
          with run dp fv inv Some have
            "attach_descendants k h self node dns (children (nodes h d) @ rest) = Some (Inr h')"
            by simp
          from IHd [OF this] show ?thesis .
        next
          case True
          from run dp fv inv Some True obtain h1 ex where
            res: "resolve_unfenced k h self d (strip_namespace dp dns) = Some (Inr (h1, ex))"
            by (auto split: option.splits sum.splits prod.splits)
          show ?thesis
          proof (cases ex)
            case None
            with run dp fv inv Some True res have
              "attach_descendants k h1 self node dns (children (nodes h1 d) @ rest) = Some (Inr h')"
              by simp
            from kept_trans [OF kept_resolve [OF res] IHd [OF this]] show ?thesis .
          next
            case (Some existing)
            with run dp fv inv \<open>parent_fence k h d = Some pf\<close> True res obtain h2 where
              h2: "fuse_subtree k h1 existing d = Some (Inr h2)"
              "attach_descendants k h2 self node dns (children (nodes h2 d) @ rest) = Some (Inr h')"
              by (auto split: option.splits sum.splits)
            from kept_trans [OF kept_resolve [OF res] kept_trans [OF IHf [OF h2(1)] IHd [OF h2(2)]]]
            show ?thesis .
          qed
        qed
      qed
    qed
  qed
qed

lemma attach_subtree_kept_step:
  assumes IHd: "\<And>h self node dns ws h'. attach_descendants k h self node dns ws = Some (Inr h')
                  \<Longrightarrow> optional_kept h h'"
    and run: "attach_subtree (Suc k) h self n = Some (Inr h')"
  shows "optional_kept h h'"
proof -
  from run obtain h1 node dns h2 where
    w: "wrap_path_node h n = Inr (h1, node)"
    and d: "attach_descendants k h1 self node dns [node] = Some (Inr h2)"
    and r: "attach_remaining k h2 self node (children (nodes h2 node)) = Some (Inr h')"
    by (auto split: option.splits sum.splits prod.splits)
  from kept_trans [OF kept_wrap [OF w] kept_trans [OF IHd [OF d] kept_attach_remaining [OF r]]]
  show ?thesis .
qed

lemma fuse_subtree_kept_step:
  assumes IHs: "\<And>h self n h'. attach_subtree k h self n = Some (Inr h') \<Longrightarrow> optional_kept h h'"
    and run: "fuse_subtree (Suc k) h self n = Some (Inr h')"
  shows "optional_kept h h'"
proof -
  from run obtain h1 where h1: "remove h n = Inr h1" by (auto split: sum.splits)
  show ?thesis
  proof (cases "path_id (nodes h1 n) \<noteq> None")
    case False
    with run h1 have "attach_subtree k h1 self n = Some (Inr h')" by simp
    from kept_trans [OF kept_remove [OF h1] IHs [OF this]] show ?thesis .
  next
    case True
    define hq where "hq = (if optional (nodes h1 n)
                         then upd_node h1 self (\<lambda>n. n\<lparr>optional := True\<rparr>) else h1)"
    obtain h2 subtree where nn: "new_node hq None True None = (h2, subtree)"
      by (cases "new_node hq None True None")
    from run h1 True nn obtain h3 where
      h3: "attach_all h2 subtree (children (nodes h2 n)) = Inr h3"
      "attach_subtree k h3 self subtree = Some (Inr h')"
      by (auto simp: hq_def split: sum.splits)
    have "optional_kept h1 hq" by (simp add: hq_def kept_refl kept_set_optional)
    from kept_trans [OF kept_remove [OF h1] kept_trans [OF this kept_trans [OF kept_new_node [OF nn]
          kept_trans [OF kept_attach_all [OF h3(1)] IHs [OF h3(2)]]]]]
    show ?thesis .
  qed
qed

lemma merge_kept:
  "(\<forall>h self n h'. attach_subtree k h self n = Some (Inr h') \<longrightarrow> optional_kept h h')
   \<and> (\<forall>h self node dns ws h'. attach_descendants k h self node dns ws = Some (Inr h')
          \<longrightarrow> optional_kept h h')
   \<and> (\<forall>h self n h'. fuse_subtree k h self n = Some (Inr h') \<longrightarrow> optional_kept h h')"
proof (induction k)
  case 0
  have "optional_kept h h'" if "attach_descendants 0 h self node dns ws = Some (Inr h')"
    for h self node dns ws h'
    using that by (cases ws) (simp_all add: kept_refl)
  then show ?case by simp
next
  case (Suc k)
  then have IHs: "\<And>h self n h'. attach_subtree k h self n = Some (Inr h') \<Longrightarrow> optional_kept h h'"
    and IHd: "\<And>h self node dns ws h'. attach_descendants k h self node dns ws = Some (Inr h')
                  \<Longrightarrow> optional_kept h h'"
    and IHf: "\<And>h self n h'. fuse_subtree k h self n = Some (Inr h') \<Longrightarrow> optional_kept h h'"
    by blast+
  have d: "optional_kept h h'"
    if "attach_descendants (Suc k) h self node dns ws = Some (Inr h')" for h self node dns ws h'
  proof (cases ws)
    case Nil
    with that show ?thesis by (simp add: kept_refl)
  next
    case (Cons d rest)
    show ?thesis
      by (rule attach_descendants_kept_step [OF _ _ that [unfolded Cons]]) (erule IHd, erule IHf)
  qed
  have s: "optional_kept h h'" if "attach_subtree (Suc k) h self n = Some (Inr h')" for h self n h'
    by (rule attach_subtree_kept_step [OF _ that]) (erule IHd)
  have f: "optional_kept h h'" if "fuse_subtree (Suc k) h self n = Some (Inr h')" for h self n h'
    by (rule fuse_subtree_kept_step [OF _ that]) (erule IHs)
  from s d f show ?case by blast
qed

lemma attach_child_fields:
  "attach_child h s n = Inr h' \<Longrightarrow> path_id (nodes h' r) = path_id (nodes h r)"
  by (auto simp: attach_child_def dest: set_parent_fields split: if_splits)

lemma remove_all_path_id:
  "remove_all h xs = Inr h' \<Longrightarrow> path_id (nodes h' r) = path_id (nodes h r)"
proof (induction xs arbitrary: h)
  case Nil
  then show ?case by simp
next
  case (Cons x xs)
  from Cons.prems obtain h1 where h1: "remove h x = Inr h1" "remove_all h1 xs = Inr h'"
    by (auto split: sum.splits)
  from remove_fields [OF h1(1), of r] Cons.IH [OF h1(2)] show ?case by simp
qed

lemma hoist_keeps_path:
  assumes "hoist_existing k h pf ex ens p = Some (Inr h')" and "path_id (nodes h r) \<noteq> None"
  shows "path_id (nodes h' r) \<noteq> None"
proof -
  from assms(1) obtain h1 ep where h1: "remove_descendants k h pf p = Some (Inr h1)"
    "path_id (nodes h1 ex) = Some ep"
    "attach_child (upd_node h1 ex (\<lambda>n. n\<lparr>path_id := Some (strip_namespace ep ens)\<rparr>)) pf ex = Inr h'"
    by (auto simp: hoist_existing_def split: option.splits sum.splits)
  from h1(1) obtain ds where
    "remove_all h (remdups (filter (\<lambda>n. paths_equal_to_shortest_ns (path_id (nodes h n)) (Some p)) ds))
       = Inr h1"
    by (auto simp: remove_descendants_def)
  from remove_all_path_id [OF this, of r] assms(2) have "path_id (nodes h1 r) \<noteq> None" by simp
  then have "path_id (nodes (upd_node h1 ex (\<lambda>n. n\<lparr>path_id := Some (strip_namespace ep ens)\<rparr>)) r)
               \<noteq> None"
    by (simp add: upd_node_def)
  with attach_child_fields [OF h1(3), of r] show ?thesis by simp
qed

lemma resolve_keeps_path:
  assumes "resolve_unfenced k h s d p = Some (Inr (h', ex))" and "path_id (nodes h r) \<noteq> None"
  shows "path_id (nodes h' r) \<noteq> None"
  using assms
  by (auto simp: resolve_unfenced_def dest: hoist_keeps_path
      split: option.splits sum.splits if_splits prod.splits bool.splits)

lemma wrap_root_pathless:
  assumes "wrap_path_node h n = Inr (h1, node)"
  shows "path_id (nodes h1 node) = None"
proof (cases "path_id (nodes h n) \<noteq> None")
  case False
  with assms show ?thesis by (simp add: wrap_path_node_def)
next
  case True
  obtain h0 w where nn: "new_node h None True None = (h0, w)" by (cases "new_node h None True None")
  with assms True have ac: "attach_child h0 w n = Inr h1" and nw: "node = w"
    by (auto simp: wrap_path_node_def split: sum.splits)
  from nn have "path_id (nodes h0 w) = None" by (auto simp: new_node_def)
  with attach_child_fields [OF ac, of w] nw show ?thesis by simp
qed

text \<open>The loop step for a visible path: the visible node ends up optional.\<close>

lemma discard_sets_optional:
  assumes dp: "path_id (nodes h d) = Some dp"
    and fv: "find_visible k h self (strip_namespace dp dns) = Some (Some v)"
    and va: "v < next_ref h" and od: "optional (nodes h d)"
    and run: "attach_descendants (Suc k) h self node dns (d # rest) = Some (Inr h')"
  shows "optional (nodes h' v) \<and> next_ref h \<le> next_ref h'"
proof -
  from run dp fv obtain h1 where h1: "remove h d = Inr h1" by (auto split: sum.splits)
  from remove_fields [OF h1] od have o1: "optional (nodes h1 d)" and n1: "next_ref h1 = next_ref h"
    by simp_all
  from run dp fv h1 o1 have
    "attach_descendants k (upd_node h1 v (\<lambda>n. n\<lparr>optional := True\<rparr>)) self node dns
       (children (nodes (upd_node h1 v (\<lambda>n. n\<lparr>optional := True\<rparr>)) d) @ rest)
     = Some (Inr h')" by simp
  with merge_kept [of k] have
    "optional_kept (upd_node h1 v (\<lambda>n. n\<lparr>optional := True\<rparr>)) h'" by blast
  then show ?thesis using va n1 by (simp add: optional_kept_def upd_node_def)
qed

text \<open>\<^verbatim>\<open>fuse_subtree\<close> with an optional path node: the receiving node ends up optional.\<close>

lemma fuse_sets_optional:
  assumes pn: "path_id (nodes h n) \<noteq> None" and on: "optional (nodes h n)"
    and sa: "self < next_ref h" and run: "fuse_subtree k h self n = Some (Inr h')"
  shows "optional (nodes h' self) \<and> next_ref h \<le> next_ref h'"
proof -
  from run obtain k' where k: "k = Suc k'" by (cases k) auto
  from run k obtain h1 where h1: "remove h n = Inr h1" by (auto split: sum.splits)
  from remove_fields [OF h1] pn on have p1: "path_id (nodes h1 n) \<noteq> None"
    and o1: "optional (nodes h1 n)" and n1: "next_ref h1 = next_ref h" by simp_all
  obtain h2 subtree where
    nn: "new_node (upd_node h1 self (\<lambda>n. n\<lparr>optional := True\<rparr>)) None True None = (h2, subtree)"
    by (cases "new_node (upd_node h1 self (\<lambda>n. n\<lparr>optional := True\<rparr>)) None True None")
  from run k h1 p1 o1 nn obtain h3 where
    h3: "attach_all h2 subtree (children (nodes h2 n)) = Inr h3"
    "attach_subtree k' h3 self subtree = Some (Inr h')"
    by (auto split: sum.splits)
  from h3(2) merge_kept [of k'] have "optional_kept h3 h'" by blast
  from kept_trans [OF kept_new_node [OF nn] kept_trans [OF kept_attach_all [OF h3(1)] this]]
  have "optional_kept (upd_node h1 self (\<lambda>n. n\<lparr>optional := True\<rparr>)) h'" .
  then show ?thesis using sa n1 by (simp add: optional_kept_def upd_node_def)
qed

text \<open>A whole call of \<^verbatim>\<open>attach_subtree\<close>, split at the first incoming node.\<close>

lemma attach_subtree_first_child:
  assumes w: "wrap_path_node h0 node0 = Inr (h1, node)"
    and cs: "children (nodes h1 node) = d # cs"
    and dns: "descendant_namespaces (Suc (Suc k)) h1 node = Some dns"
    and run: "attach_subtree (Suc (Suc (Suc k))) h0 self node0 = Some (Inr h')"
  shows "\<exists>h2. attach_descendants (Suc k) h1 self node dns (d # cs) = Some (Inr h2)
           \<and> optional_kept h2 h'"
proof -
  from wrap_root_pathless [OF w] have pl: "path_id (nodes h1 node) = None" .
  from run w dns obtain h2 where
    l: "attach_descendants (Suc (Suc k)) h1 self node dns [node] = Some (Inr h2)"
    and r: "attach_remaining (Suc (Suc k)) h2 self node (children (nodes h2 node)) = Some (Inr h')"
    by (auto split: option.splits sum.splits)
  from l pl cs have "attach_descendants (Suc k) h1 self node dns (d # cs) = Some (Inr h2)"
    by simp
  with kept_attach_remaining [OF r] show ?thesis by blast
qed

lemma attach_subtree_discard_optional:
  assumes w: "wrap_path_node h0 node0 = Inr (h1, node)"
    and cs: "children (nodes h1 node) = d # cs"
    and dns: "descendant_namespaces (Suc (Suc k)) h1 node = Some dns"
    and dp: "path_id (nodes h1 d) = Some dp" and od: "optional (nodes h1 d)"
    and fv: "find_visible k h1 self (strip_namespace dp dns) = Some (Some v)"
    and va: "v < next_ref h1"
    and run: "attach_subtree (Suc (Suc (Suc k))) h0 self node0 = Some (Inr h')"
  shows "optional (nodes h' v)"
proof -
  from attach_subtree_first_child [OF w cs dns run] obtain h2 where
    l: "attach_descendants (Suc k) h1 self node dns (d # cs) = Some (Inr h2)"
    and r: "optional_kept h2 h'" by blast
  from discard_sets_optional [OF dp fv va od l] have "optional (nodes h2 v)" "v < next_ref h2"
    using va by simp_all
  with r show ?thesis by (simp add: optional_kept_def)
qed

lemma attach_subtree_fuse_optional:
  assumes w: "wrap_path_node h0 node0 = Inr (h1, node)"
    and cs: "children (nodes h1 node) = d # cs"
    and dns: "descendant_namespaces (Suc (Suc k)) h1 node = Some dns"
    and dp: "path_id (nodes h1 d) = Some dp" and od: "optional (nodes h1 d)"
    and da: "d < next_ref h1"
    and fv: "find_visible k h1 self (strip_namespace dp dns) = Some None"
    and pf: "parent_fence k h1 d = Some (Some node)"
    and res: "resolve_unfenced k h1 self d (strip_namespace dp dns) = Some (Inr (h2, Some existing))"
    and ea: "existing < next_ref h1"
    and run: "attach_subtree (Suc (Suc (Suc k))) h0 self node0 = Some (Inr h')"
  shows "optional (nodes h' existing)"
proof -
  from attach_subtree_first_child [OF w cs dns run] obtain h5 where
    l: "attach_descendants (Suc k) h1 self node dns (d # cs) = Some (Inr h5)"
    and r: "optional_kept h5 h'" by blast
  from l dp fv pf res obtain h3 where
    f: "fuse_subtree k h2 existing d = Some (Inr h3)"
    and l2: "attach_descendants k h3 self node dns (children (nodes h3 d) @ cs) = Some (Inr h5)"
    by (auto split: option.splits sum.splits)
  from kept_resolve [OF res] have k12: "optional_kept h1 h2" .
  then have o2: "optional (nodes h2 d)" and e2: "existing < next_ref h2"
    using od da ea by (auto simp: optional_kept_def)
  from resolve_keeps_path [OF res, of d] dp have p2: "path_id (nodes h2 d) \<noteq> None" by simp
  from fuse_sets_optional [OF p2 o2 e2 f] have "optional (nodes h3 existing)"
    "existing < next_ref h3" using e2 by simp_all
  moreover from l2 merge_kept [of k] have "optional_kept h3 h5" by blast
  ultimately have "optional (nodes h5 existing)" "existing < next_ref h5"
    by (auto simp: optional_kept_def)
  with r show ?thesis by (simp add: optional_kept_def)
qed

text \<open>
  Claim C8. When a merge meets an incoming node whose path is already in the tree and the
  incoming node is optional, the node that stays is optional afterwards, and no merge
  clears a flag. In five parts: (1) the loop step that discards an incoming node as
  visible leaves the visible node optional when the loop ends; (2) \<^verbatim>\<open>fuse_subtree\<close> of
  an optional path node leaves the receiving node optional when it returns; (3) neither
  \<^verbatim>\<open>attach_subtree\<close> nor \<^verbatim>\<open>fuse_subtree\<close> clears the flag of an allocated node;
  (4) a whole call of \<^verbatim>\<open>attach_subtree\<close> whose first incoming node is optional and
  visible returns with the visible node optional; (5) a whole call of \<^verbatim>\<open>attach_subtree\<close>
  whose first incoming node is optional, unfenced, not visible, and resolved to an existing
  match returns with that match optional. In (4) and (5) \<open>hw\<close> and \<open>node\<close> are the store
  and the incoming root after the wrapping step, and the reads carry the fuel the call
  itself gives them.
\<close>

theorem optional_accumulates:
  "(path_id (nodes h d) = Some dp
      \<longrightarrow> find_visible k h self (strip_namespace dp dns) = Some (Some v)
      \<longrightarrow> v < next_ref h \<longrightarrow> optional (nodes h d)
      \<longrightarrow> attach_descendants (Suc k) h self node dns (d # rest) = Some (Inr h')
      \<longrightarrow> optional (nodes h' v))
   \<and> (path_id (nodes h n) \<noteq> None \<longrightarrow> optional (nodes h n) \<longrightarrow> self < next_ref h
      \<longrightarrow> fuse_subtree k h self n = Some (Inr h')
      \<longrightarrow> optional (nodes h' self))
   \<and> (r < next_ref h \<longrightarrow> optional (nodes h r)
      \<longrightarrow> attach_subtree k h self n = Some (Inr h') \<or> fuse_subtree k h self n = Some (Inr h')
      \<longrightarrow> optional (nodes h' r))
   \<and> (wrap_path_node h incoming = Inr (hw, node) \<longrightarrow> children (nodes hw node) = d # rest
      \<longrightarrow> descendant_namespaces (Suc (Suc k)) hw node = Some dns
      \<longrightarrow> path_id (nodes hw d) = Some dp \<longrightarrow> optional (nodes hw d)
      \<longrightarrow> find_visible k hw self (strip_namespace dp dns) = Some (Some v)
      \<longrightarrow> v < next_ref hw
      \<longrightarrow> attach_subtree (Suc (Suc (Suc k))) h self incoming = Some (Inr h')
      \<longrightarrow> optional (nodes h' v))
   \<and> (wrap_path_node h incoming = Inr (hw, node) \<longrightarrow> children (nodes hw node) = d # rest
      \<longrightarrow> descendant_namespaces (Suc (Suc k)) hw node = Some dns
      \<longrightarrow> path_id (nodes hw d) = Some dp \<longrightarrow> optional (nodes hw d) \<longrightarrow> d < next_ref hw
      \<longrightarrow> find_visible k hw self (strip_namespace dp dns) = Some None
      \<longrightarrow> parent_fence k hw d = Some (Some node)
      \<longrightarrow> resolve_unfenced k hw self d (strip_namespace dp dns) = Some (Inr (hr, Some existing))
      \<longrightarrow> existing < next_ref hw
      \<longrightarrow> attach_subtree (Suc (Suc (Suc k))) h self incoming = Some (Inr h')
      \<longrightarrow> optional (nodes h' existing))"
proof (intro conjI impI)
  assume "path_id (nodes h d) = Some dp"
    and "find_visible k h self (strip_namespace dp dns) = Some (Some v)"
    and "v < next_ref h" and "optional (nodes h d)"
    and "attach_descendants (Suc k) h self node dns (d # rest) = Some (Inr h')"
  then show "optional (nodes h' v)" using discard_sets_optional by blast
next
  assume "path_id (nodes h n) \<noteq> None" and "optional (nodes h n)"
    and "self < next_ref h" and "fuse_subtree k h self n = Some (Inr h')"
  then show "optional (nodes h' self)" using fuse_sets_optional by blast
next
  assume "r < next_ref h" and "optional (nodes h r)"
    and "attach_subtree k h self n = Some (Inr h') \<or> fuse_subtree k h self n = Some (Inr h')"
  with merge_kept [of k] show "optional (nodes h' r)" unfolding optional_kept_def by blast
next
  assume "wrap_path_node h incoming = Inr (hw, node)" and "children (nodes hw node) = d # rest"
    and "descendant_namespaces (Suc (Suc k)) hw node = Some dns"
    and "path_id (nodes hw d) = Some dp" and "optional (nodes hw d)"
    and "find_visible k hw self (strip_namespace dp dns) = Some (Some v)"
    and "v < next_ref hw"
    and "attach_subtree (Suc (Suc (Suc k))) h self incoming = Some (Inr h')"
  then show "optional (nodes h' v)" by (rule attach_subtree_discard_optional)
next
  assume "wrap_path_node h incoming = Inr (hw, node)" and "children (nodes hw node) = d # rest"
    and "descendant_namespaces (Suc (Suc k)) hw node = Some dns"
    and "path_id (nodes hw d) = Some dp" and "optional (nodes hw d)" and "d < next_ref hw"
    and "find_visible k hw self (strip_namespace dp dns) = Some None"
    and "parent_fence k hw d = Some (Some node)"
    and "resolve_unfenced k hw self d (strip_namespace dp dns) = Some (Inr (hr, Some existing))"
    and "existing < next_ref hw"
    and "attach_subtree (Suc (Suc (Suc k))) h self incoming = Some (Inr h')"
  then show "optional (nodes h' existing)" by (rule attach_subtree_fuse_optional)
qed

text \<open>The five parts at work. In the first store the visible node 1 is not optional
  before the call and is optional after it; in the second the existing match 2 likewise.\<close>

theorem optional_accumulates_witness:
  "path_id (nodes optional_visible_store 3) = Some path_A
   \<and> find_visible 2 optional_visible_store 0 (strip_namespace path_A {}) = Some (Some 1)
   \<and> 1 < next_ref optional_visible_store
   \<and> optional (nodes optional_visible_store 3)
   \<and> \<not> optional (nodes optional_visible_store 1)
   \<and> (\<exists>h'. attach_descendants (Suc 2) optional_visible_store 0 2 {} [3] = Some (Inr h')
         \<and> optional (nodes h' 1))
   \<and> path_id (nodes optional_fuse_store 4) \<noteq> None
   \<and> optional (nodes optional_fuse_store 4)
   \<and> \<not> optional (nodes optional_fuse_store 2)
   \<and> 2 < next_ref optional_fuse_store
   \<and> (\<exists>h'. fuse_subtree 3 optional_fuse_store 2 4 = Some (Inr h') \<and> optional (nodes h' 2))
   \<and> 3 < next_ref optional_visible_store
   \<and> (\<exists>h'. attach_subtree 4 optional_visible_store 0 2 = Some (Inr h') \<and> optional (nodes h' 3))
   \<and> wrap_path_node optional_visible_store 2 = Inr (optional_visible_store, 2)
   \<and> children (nodes optional_visible_store 2) = [3]
   \<and> descendant_namespaces (Suc (Suc 2)) optional_visible_store 2 = Some {}
   \<and> (\<exists>h'. attach_subtree (Suc (Suc (Suc 2))) optional_visible_store 0 2 = Some (Inr h')
         \<and> optional (nodes h' 1))
   \<and> wrap_path_node optional_fuse_store 3 = Inr (optional_fuse_store, 3)
   \<and> children (nodes optional_fuse_store 3) = [4]
   \<and> descendant_namespaces (Suc (Suc 3)) optional_fuse_store 3 = Some {}
   \<and> path_id (nodes optional_fuse_store 4) = Some path_A
   \<and> 4 < next_ref optional_fuse_store
   \<and> find_visible 3 optional_fuse_store 0 (strip_namespace path_A {}) = Some None
   \<and> parent_fence 3 optional_fuse_store 4 = Some (Some 3)
   \<and> (\<exists>h2. resolve_unfenced 3 optional_fuse_store 0 4 (strip_namespace path_A {})
               = Some (Inr (h2, Some 2)))
   \<and> (\<exists>h'. attach_subtree (Suc (Suc (Suc 3))) optional_fuse_store 0 3 = Some (Inr h')
         \<and> optional (nodes h' 2))"
proof -
  have a1: "path_id (nodes optional_visible_store 3) = Some path_A" by (simp add: example_defs)
  have a2: "find_visible 2 optional_visible_store 0 (strip_namespace path_A {}) = Some (Some 1)"
    by (simp add: eval_defs example_defs numeral_eq_Suc)
  have a3: "1 < next_ref optional_visible_store" by (simp add: example_defs)
  have a4: "optional (nodes optional_visible_store 3)" by (simp add: example_defs)
  have a0: "\<not> optional (nodes optional_visible_store 1)" by (simp add: example_defs)
  have "\<exists>h'. attach_descendants (Suc 2) optional_visible_store 0 2 {} [3] = Some (Inr h')"
    by (simp add: eval_defs example_defs numeral_eq_Suc)
  then obtain ha where a5: "attach_descendants (Suc 2) optional_visible_store 0 2 {} [3] = Some (Inr ha)"
    by blast
  from optional_accumulates [where h = optional_visible_store and d = 3 and dp = path_A and k = 2
      and self = 0 and dns = "{}" and v = 1 and node = 2 and rest = "[]" and h' = ha] a1 a2 a3 a4 a5
  have A: "optional (nodes ha 1)" by blast
  have b1: "path_id (nodes optional_fuse_store 4) \<noteq> None" by (simp add: example_defs)
  have b2: "optional (nodes optional_fuse_store 4)" by (simp add: example_defs)
  have b0: "\<not> optional (nodes optional_fuse_store 2)" by (simp add: example_defs)
  have b3: "2 < next_ref optional_fuse_store" by (simp add: example_defs)
  have "\<exists>h'. fuse_subtree 3 optional_fuse_store 2 4 = Some (Inr h')"
    by (simp add: eval_defs example_defs numeral_eq_Suc)
  then obtain hb where b4: "fuse_subtree 3 optional_fuse_store 2 4 = Some (Inr hb)" by blast
  from optional_accumulates [where h = optional_fuse_store and k = 3 and self = 2 and h' = hb and n = 4]
    b1 b2 b3 b4
  have B: "optional (nodes hb 2)" by blast
  have c1: "3 < next_ref optional_visible_store" by (simp add: example_defs)
  have "\<exists>h'. attach_subtree 4 optional_visible_store 0 2 = Some (Inr h')"
    by (simp add: eval_defs example_defs numeral_eq_Suc)
  then obtain hc where c2: "attach_subtree 4 optional_visible_store 0 2 = Some (Inr hc)" by blast
  from optional_accumulates [where h = optional_visible_store and k = 4 and self = 0 and h' = hc
      and n = 2 and r = 3] a4 c1 c2
  have C: "optional (nodes hc 3)" by blast
  have d1: "wrap_path_node optional_visible_store 2 = Inr (optional_visible_store, 2)"
    by (simp add: wrap_path_node_def example_defs)
  have d2: "children (nodes optional_visible_store 2) = [3]" by (simp add: example_defs)
  have d3: "descendant_namespaces (Suc (Suc 2)) optional_visible_store 2 = Some {}"
    by (simp add: eval_defs example_defs numeral_eq_Suc)
  have "\<exists>h'. attach_subtree (Suc (Suc (Suc 2))) optional_visible_store 0 2 = Some (Inr h')"
    by (simp add: eval_defs example_defs numeral_eq_Suc)
  then obtain hd where
    d4: "attach_subtree (Suc (Suc (Suc 2))) optional_visible_store 0 2 = Some (Inr hd)" by blast
  from optional_accumulates [where h = optional_visible_store and incoming = 2
      and hw = optional_visible_store and node = 2 and d = 3 and rest = "[]" and k = 2
      and dns = "{}" and dp = path_A and self = 0 and v = 1 and h' = hd]
    d1 d2 d3 a1 a4 a2 a3 d4
  have D: "optional (nodes hd 1)" by blast
  have e1: "wrap_path_node optional_fuse_store 3 = Inr (optional_fuse_store, 3)"
    by (simp add: wrap_path_node_def example_defs)
  have e2: "children (nodes optional_fuse_store 3) = [4]" by (simp add: example_defs)
  have e3: "descendant_namespaces (Suc (Suc 3)) optional_fuse_store 3 = Some {}"
    by (simp add: eval_defs example_defs numeral_eq_Suc)
  have e4: "path_id (nodes optional_fuse_store 4) = Some path_A" by (simp add: example_defs)
  have e5: "4 < next_ref optional_fuse_store" by (simp add: example_defs)
  have e6: "find_visible 3 optional_fuse_store 0 (strip_namespace path_A {}) = Some None"
    by (simp add: eval_defs example_defs numeral_eq_Suc)
  have e7: "parent_fence 3 optional_fuse_store 4 = Some (Some 3)"
    by (simp add: eval_defs example_defs numeral_eq_Suc)
  have "\<exists>h2. resolve_unfenced 3 optional_fuse_store 0 4 (strip_namespace path_A {})
               = Some (Inr (h2, Some 2))"
    by (simp add: eval_defs example_defs numeral_eq_Suc)
  then obtain he where
    e8: "resolve_unfenced 3 optional_fuse_store 0 4 (strip_namespace path_A {})
           = Some (Inr (he, Some 2))" by blast
  have "\<exists>h'. attach_subtree (Suc (Suc (Suc 3))) optional_fuse_store 0 3 = Some (Inr h')"
    by (simp add: eval_defs example_defs numeral_eq_Suc)
  then obtain hf where
    e9: "attach_subtree (Suc (Suc (Suc 3))) optional_fuse_store 0 3 = Some (Inr hf)" by blast
  from optional_accumulates [where h = optional_fuse_store and incoming = 3
      and hw = optional_fuse_store and node = 3 and d = 4 and rest = "[]" and k = 3
      and dns = "{}" and dp = path_A and self = 0 and hr = he and existing = 2 and h' = hf]
    e1 e2 e3 e4 b2 e5 e6 e7 e8 b3 e9
  have E: "optional (nodes hf 2)" by blast
  from a1 a2 a3 a4 a0 a5 A b1 b2 b0 b3 b4 B c1 c2 C d1 d2 d3 d4 D e1 e2 e3 e4 e5 e6 e7 e8 e9 E
  show ?thesis by blast
qed

section \<open>Banned paths\<close>

text \<open>
  Claim C9, amended. After \<^verbatim>\<open>ban_path(p)\<close>, \<^verbatim>\<open>path_is_banned(q)\<close> is true exactly when
  the stripped form of \<open>q\<close> is in the table, that is, equals the stripped form of \<open>p\<close> or
  of a path banned before, and \<open>q\<close> is also visible from the context's scope node: the
  check consults the scope tree as well as the table.
\<close>

theorem banned_needs_visible:
  "find_visible k h (path_scope ctx) q = Some r \<Longrightarrow>
     path_is_banned k h q (ban_path p ctx)
       = Some ((strip_weak_namespaces q = strip_weak_namespaces p
                \<or> strip_weak_namespaces q \<in> banned_paths ctx) \<and> r \<noteq> None)"
  by (simp add: path_is_banned_def ban_path_def is_visible_def)

text \<open>A banned and visible path: \<open>A\<close> from node 2 of the fence tree.\<close>

theorem banned_needs_visible_witness:
  "find_visible 1 fence_tree (path_scope \<lparr>banned_paths = {}, path_scope = 2\<rparr>) path_A
     = Some (Some 2)
   \<and> path_is_banned 1 fence_tree path_A (ban_path path_A \<lparr>banned_paths = {}, path_scope = 2\<rparr>)
       = Some True"
proof -
  have v: "find_visible 1 fence_tree (path_scope \<lparr>banned_paths = {}, path_scope = 2\<rparr>) path_A
     = Some (Some 2)"
    by (simp add: find_visible_def paths_equal_def example_defs)
  from banned_needs_visible [OF v, of path_A] v show ?thesis by simp
qed

text \<open>The claim as stated fails for a path that is banned and not visible: the stripped
  forms agree and the check still answers false.\<close>

theorem banned_invisible_counterexample:
  "strip_weak_namespaces path_A = strip_weak_namespaces path_A
   \<and> path_is_banned 1 (root_only (mk_node None True [] None)) path_A
        (ban_path path_A \<lparr>banned_paths = {}, path_scope = 0\<rparr>) = Some False"
  by (simp add: path_is_banned_def ban_path_def is_visible_def find_visible_def
        paths_equal_def example_defs)

end
